theory Spec2Isabelle
  imports Main "HOL-Library.Word"
begin

section \<open>Python values\<close>

text \<open>
  A Python \<^verbatim>\<open>str\<close> is the sequence of its code points, a \<^verbatim>\<open>bytes\<close> value the
  sequence of its bytes, an \<^verbatim>\<open>int\<close> an unbounded integer.  Literals of the source are
  written \<open>u ''...''\<close>.  An exception that leaves a function is a value \<open>Inl e\<close>.
\<close>

type_synonym str = "nat list"
type_synonym bytes = "8 word list"

definition u :: "string \<Rightarrow> str" where
  "u s = map of_char s"

datatype error = ValueError | IndexError | AttributeError | TypeError | ProviderError

text \<open>\<^verbatim>\<open>x or d\<close> on an \<^verbatim>\<open>Optional[int]\<close> and on an \<^verbatim>\<open>Optional[str]\<close>: \<^verbatim>\<open>None\<close>, \<^verbatim>\<open>0\<close>
  and \<^verbatim>\<open>""\<close> are falsy.\<close>

definition or_int :: "int option \<Rightarrow> int \<Rightarrow> int" where
  "or_int x d = (case x of None \<Rightarrow> d | Some n \<Rightarrow> if n = 0 then d else n)"

definition or_str :: "str option \<Rightarrow> str \<Rightarrow> str" where
  "or_str x d = (case x of None \<Rightarrow> d | Some s \<Rightarrow> if s = [] then d else s)"

subsection \<open>Hexadecimal text and checksummed addresses\<close>

text \<open>\<^verbatim>\<open>bytes.hex()\<close>: two lower-case digits per byte, no prefix.  (Releases of the
  \<^verbatim>\<open>HexBytes\<close> type before 1.0 put \<^verbatim>\<open>0x\<close> in front; the program compares such texts
  only with one another and hands them to \<open>to_checksum_address\<close>, which drops the
  prefix.)\<close>

definition hexdigit :: "nat \<Rightarrow> nat" where
  "hexdigit d = (if d < 10 then 48 + d else 87 + d)"

definition hex_of_byte :: "8 word \<Rightarrow> str" where
  "hex_of_byte b = [hexdigit (unat b div 16), hexdigit (unat b mod 16)]"

definition hex :: "bytes \<Rightarrow> str" where
  "hex bs = concat (map hex_of_byte bs)"

text \<open>Keccak-256 is a parameter \<open>keccak\<close> of the model, from a text to its 256-bit digest.
  \<open>nibble w i\<close> is the value of digit \<open>i\<close> (from the left) of the 64 hexadecimal digits
  of \<open>w\<close>, and \<open>hex256 w\<close> is \<^verbatim>\<open>Web3.keccak(...).hex()\<close>.\<close>

type_synonym keccak = "str \<Rightarrow> 256 word"

definition nibble :: "256 word \<Rightarrow> nat \<Rightarrow> nat" where
  "nibble w i = unat (take_bit 4 (drop_bit (4 * (63 - i)) w))"

definition hex256 :: "256 word \<Rightarrow> str" where
  "hex256 w = map (\<lambda>i. hexdigit (nibble w i)) [0..<64]"

definition is_hex_char :: "nat \<Rightarrow> bool" where
  "is_hex_char c = ((48 \<le> c \<and> c \<le> 57) \<or> (97 \<le> c \<and> c \<le> 102) \<or> (65 \<le> c \<and> c \<le> 70))"

definition ascii_lower :: "nat \<Rightarrow> nat" where
  "ascii_lower c = (if 65 \<le> c \<and> c \<le> 90 then c + 32 else c)"

definition ascii_upper :: "nat \<Rightarrow> nat" where
  "ascii_upper c = (if 97 \<le> c \<and> c \<le> 122 then c - 32 else c)"

definition lower_hex :: "nat \<Rightarrow> bool" where
  "lower_hex c = ((48 \<le> c \<and> c \<le> 57) \<or> (97 \<le> c \<and> c \<le> 102))"

definition remove_0x_prefix :: "str \<Rightarrow> str" where
  "remove_0x_prefix v = (if take 2 v = u ''0x'' \<or> take 2 v = u ''0X'' then drop 2 v else v)"

text \<open>\<^verbatim>\<open>Web3.to_checksum_address\<close> of eth-utils on a \<^verbatim>\<open>str\<close>: the text is normalised
  (optional \<^verbatim>\<open>0x\<close> prefix, lower case) and must be 40 hexadecimal digits, otherwise
  \<^verbatim>\<open>ValueError\<close>; digit \<open>i\<close> is upper-cased when digit \<open>i\<close> of the hash of the
  normalised digits is above 7 (EIP-55).\<close>

definition checksum_encode :: "keccak \<Rightarrow> str \<Rightarrow> str" where
  "checksum_encode keccak norm_address =
     (let address_hash = keccak norm_address in
      u ''0x'' @
      map (\<lambda>(i, c). if nibble address_hash i > 7 then ascii_upper c else c)
        (enumerate 0 norm_address))"

definition to_checksum_address :: "keccak \<Rightarrow> str \<Rightarrow> error + str" where
  "to_checksum_address keccak v =
     (let h = remove_0x_prefix v in
      if list_all is_hex_char h \<and> length h = 40
      then Inr (checksum_encode keccak (map ascii_lower h))
      else Inl ValueError)"

section \<open>The chain-state reader\<close>

text \<open>A raw log record as \<^verbatim>\<open>w3.eth.get_logs\<close> returns it, the filter of one query, and the
  provider \<^verbatim>\<open>w3\<close>: each of its calls returns a value or raises.\<close>

record log =
  blockNumber :: int
  transactionHash :: bytes
  topics :: "bytes list"

record query =
  q_address :: str
  fromBlock :: int
  toBlock :: int

record web3 =
  block_number :: "error + int"
  get_storage_at :: "str \<Rightarrow> nat \<Rightarrow> error + bytes"
  get_logs :: "query \<Rightarrow> error + log list"

section \<open>detect_proxy_and_impl\<close>

text \<open>\<^verbatim>\<open>int(EIP1967_IMPLEMENTATION_SLOT, 16)\<close>, the constant of line 23.\<close>

definition EIP1967_IMPLEMENTATION_SLOT :: nat where
  "EIP1967_IMPLEMENTATION_SLOT =
     0x360894a13ba1a3210667c828492db98dca3e2076cc3735a920a3ca505d382bbc"

text \<open>Every exception inside the \<^verbatim>\<open>try\<close> (a malformed \<^verbatim>\<open>proxy_addr\<close>, a failed read)
  gives \<^verbatim>\<open>None\<close>; \<^verbatim>\<open>raw[-20:]\<close> is \<open>drop (length raw - 20) raw\<close>.\<close>

definition detect_proxy_and_impl :: "keccak \<Rightarrow> web3 \<Rightarrow> str \<Rightarrow> str option" where
  "detect_proxy_and_impl keccak w3 proxy_addr =
     (case to_checksum_address keccak proxy_addr of
        Inl e \<Rightarrow> None
      | Inr a \<Rightarrow>
          (case get_storage_at w3 a EIP1967_IMPLEMENTATION_SLOT of
             Inl e \<Rightarrow> None
           | Inr raw \<Rightarrow>
               if raw \<noteq> [] \<and> length raw = 32 then
                 (case to_checksum_address keccak (hex (drop (length raw - 20) raw)) of
                    Inl e \<Rightarrow> None
                  | Inr impl \<Rightarrow> Some impl)
               else None))"

section \<open>main: block bounds and the fetch target\<close>

text \<open>The parsed command line (\<^verbatim>\<open>--from-block\<close> and \<^verbatim>\<open>--to-block\<close> default to
  \<^verbatim>\<open>None\<close>), and what lines 196 to 205 of \<^verbatim>\<open>main\<close> compute before the source is
  fetched.  An exception of \<^verbatim>\<open>to_checksum_address\<close> or of \<^verbatim>\<open>w3.eth.block_number\<close>
  ends the run.\<close>

record args =
  arg_address :: str
  arg_from_block :: "int option"
  arg_to_block :: "int option"

record plan =
  address :: str
  latest :: int
  from_block :: int
  to_block :: int
  impl :: "str option"
  target :: str

definition main_setup :: "keccak \<Rightarrow> web3 \<Rightarrow> args \<Rightarrow> error + plan" where
  "main_setup keccak w3 a =
     (case to_checksum_address keccak (arg_address a) of
        Inl e \<Rightarrow> Inl e
      | Inr addr \<Rightarrow>
          (case block_number w3 of
             Inl e \<Rightarrow> Inl e
           | Inr l \<Rightarrow>
               (let fb = or_int (arg_from_block a) (max 0 (l - 200000));
                    tb = or_int (arg_to_block a) l;
                    i = detect_proxy_and_impl keccak w3 addr
                in Inr \<lparr>address = addr, latest = l, from_block = fb, to_block = tb,
                         impl = i, target = or_str i addr\<rparr>)))"

section \<open>scan_logs\<close>

text \<open>The three precomputed signature hashes, as \<^verbatim>\<open>Web3.keccak(text=...).hex()\<close> gives
  them.\<close>

definition TRANSFER_TOPIC :: "keccak \<Rightarrow> str" where
  "TRANSFER_TOPIC keccak = hex256 (keccak (u ''Transfer(address,address,uint256)''))"

definition BLACKLISTED_TOPIC :: "keccak \<Rightarrow> str" where
  "BLACKLISTED_TOPIC keccak = hex256 (keccak (u ''Blacklisted(address)''))"

definition UPGR_TOPIC :: "keccak \<Rightarrow> str" where
  "UPGR_TOPIC keccak = hex256 (keccak (u ''Upgraded(address)''))"

text \<open>The dictionary kept for a log, \<^verbatim>\<open>{"block": ..., "tx": ..., "topics": [...]}\<close>, and the
  dictionary \<^verbatim>\<open>scan_logs\<close> returns, with its three lists.\<close>

record event =
  block :: int
  tx :: str
  topic_texts :: "str list"

record scan_result =
  transfer :: "event list"
  blacklisted :: "event list"
  upgraded :: "event list"

definition retain :: "log \<Rightarrow> event" where
  "retain l = \<lparr>block = blockNumber l, tx = hex (transactionHash l),
              topic_texts = map hex (topics l)\<rparr>"

text \<open>Python's \<^verbatim>\<open>range(start, stop, step)\<close>: \<^verbatim>\<open>ValueError\<close> for step 0, ascending for a
  positive step and descending for a negative one.\<close>

function range_up :: "int \<Rightarrow> int \<Rightarrow> int \<Rightarrow> int list" where
  "range_up start stop step =
     (if 0 < step \<and> start < stop then start # range_up (start + step) stop step else [])"
  by pat_completeness auto
termination
  by (relation "measure (\<lambda>(start, stop, step). nat (stop - start))") auto

function range_down :: "int \<Rightarrow> int \<Rightarrow> int \<Rightarrow> int list" where
  "range_down start stop step =
     (if step < 0 \<and> stop < start then start # range_down (start + step) stop step else [])"
  by pat_completeness auto
termination
  by (relation "measure (\<lambda>(start, stop, step). nat (start - stop))") auto

declare range_up.simps [simp del] range_down.simps [simp del]

definition py_range :: "int \<Rightarrow> int \<Rightarrow> int \<Rightarrow> error + int list" where
  "py_range start stop step =
     (if step = 0 then Inl ValueError
      else if 0 < step then Inr (range_up start stop step)
      else Inr (range_down start stop step))"

text \<open>The body of the inner loop, lines 143 to 149: \<^verbatim>\<open>l["topics"][0]\<close> raises
  \<^verbatim>\<open>IndexError\<close> on a log without topics, outside every \<^verbatim>\<open>try\<close>.\<close>

definition classify :: "keccak \<Rightarrow> scan_result \<Rightarrow> log \<Rightarrow> error + scan_result" where
  "classify keccak acc l =
     (case topics l of
        [] \<Rightarrow> Inl IndexError
      | t # ts \<Rightarrow>
          (let t0 = hex t in
           if t0 = TRANSFER_TOPIC keccak
             then Inr (acc\<lparr>transfer := transfer acc @ [retain l]\<rparr>)
           else if t0 = BLACKLISTED_TOPIC keccak
             then Inr (acc\<lparr>blacklisted := blacklisted acc @ [retain l]\<rparr>)
           else if t0 = UPGR_TOPIC keccak
             then Inr (acc\<lparr>upgraded := upgraded acc @ [retain l]\<rparr>)
           else Inr acc))"

fun classify_all :: "keccak \<Rightarrow> scan_result \<Rightarrow> log list \<Rightarrow> error + scan_result" where
  "classify_all keccak acc [] = Inr acc"
| "classify_all keccak acc (l # ls) =
     (case classify keccak acc l of
        Inl e \<Rightarrow> Inl e
      | Inr acc' \<Rightarrow> classify_all keccak acc' ls)"

text \<open>The outer loop over the window starts.  The state is the three lists and the
  queries sent to \<^verbatim>\<open>w3.eth.get_logs\<close> so far; a query that raises is skipped
  (\<^verbatim>\<open>continue\<close>).\<close>

fun scan_windows ::
  "keccak \<Rightarrow> web3 \<Rightarrow> str \<Rightarrow> int \<Rightarrow> int \<Rightarrow> int list \<Rightarrow> scan_result \<times> query list
     \<Rightarrow> (error + scan_result) \<times> query list" where
  "scan_windows keccak w3 addr to_blk step [] (acc, sent) = (Inr acc, sent)"
| "scan_windows keccak w3 addr to_blk step (start # starts) (acc, sent) =
     (let q = \<lparr>q_address = addr, fromBlock = start, toBlock = min to_blk (start + step - 1)\<rparr>
      in case get_logs w3 q of
           Inl e \<Rightarrow> scan_windows keccak w3 addr to_blk step starts (acc, sent @ [q])
         | Inr logs \<Rightarrow>
             (case classify_all keccak acc logs of
                Inl e \<Rightarrow> (Inl e, sent @ [q])
              | Inr acc' \<Rightarrow> scan_windows keccak w3 addr to_blk step starts (acc', sent @ [q])))"

text \<open>\<^verbatim>\<open>scan_logs\<close> returns the dictionary, or raises; the second component is the
  sequence of queries it sent.\<close>

definition scan_logs ::
  "keccak \<Rightarrow> web3 \<Rightarrow> str \<Rightarrow> int \<Rightarrow> int \<Rightarrow> int \<Rightarrow> (error + scan_result) \<times> query list" where
  "scan_logs keccak w3 addr_text from_blk to_blk step =
     (case to_checksum_address keccak addr_text of
        Inl e \<Rightarrow> (Inl e, [])
      | Inr addr \<Rightarrow>
          (case py_range from_blk (to_blk + 1) step of
             Inl e \<Rightarrow> (Inl e, [])
           | Inr starts \<Rightarrow>
               scan_windows keccak w3 addr to_blk step starts
                 (\<lparr>transfer = [], blacklisted = [], upgraded = []\<rparr>, [])))"

text \<open>For the statements below: the logs that a sequence of queries returned (a failed
  query returns none), the first topic of a log as a text, the query for a window, the kind
  that the chain of comparisons gives a first topic, the kept events of one kind among some
  logs, and a result with the events of some logs added.\<close>

definition returned_logs :: "web3 \<Rightarrow> query list \<Rightarrow> log list" where
  "returned_logs w3 qs =
     concat (map (\<lambda>q. case get_logs w3 q of Inl e \<Rightarrow> [] | Inr logs \<Rightarrow> logs) qs)"

definition first_topic :: "log \<Rightarrow> str option" where
  "first_topic l = (case topics l of [] \<Rightarrow> None | t # ts \<Rightarrow> Some (hex t))"

definition window :: "str \<Rightarrow> int \<Rightarrow> int \<Rightarrow> query" where
  "window addr a b = \<lparr>q_address = addr, fromBlock = a, toBlock = b\<rparr>"

datatype kind = Transfer | Blacklisted | Upgraded

definition kind_of :: "keccak \<Rightarrow> str option \<Rightarrow> kind option" where
  "kind_of keccak t =
     (case t of
        None \<Rightarrow> None
      | Some t0 \<Rightarrow>
          if t0 = TRANSFER_TOPIC keccak then Some Transfer
          else if t0 = BLACKLISTED_TOPIC keccak then Some Blacklisted
          else if t0 = UPGR_TOPIC keccak then Some Upgraded
          else None)"

definition of_kind :: "keccak \<Rightarrow> kind \<Rightarrow> log list \<Rightarrow> event list" where
  "of_kind keccak k ls = map retain (filter (\<lambda>l. kind_of keccak (first_topic l) = Some k) ls)"

definition add_logs :: "keccak \<Rightarrow> scan_result \<Rightarrow> log list \<Rightarrow> scan_result" where
  "add_logs keccak acc ls =
     \<lparr>transfer = transfer acc @ of_kind keccak Transfer ls,
      blacklisted = blacklisted acc @ of_kind keccak Blacklisted ls,
      upgraded = upgraded acc @ of_kind keccak Upgraded ls\<rparr>"

definition event_first_topic :: "event \<Rightarrow> str option" where
  "event_first_topic e = (case topic_texts e of [] \<Rightarrow> None | t # ts \<Rightarrow> Some t)"

section \<open>Text operations of Python\<close>

text \<open>White space as \<^verbatim>\<open>str.strip()\<close> and the pattern \<^verbatim>\<open>\s\<close> read it, and the line
  boundaries of \<^verbatim>\<open>str.splitlines()\<close>.\<close>

definition is_space :: "nat \<Rightarrow> bool" where
  "is_space c = ((9 \<le> c \<and> c \<le> 13) \<or> (28 \<le> c \<and> c \<le> 32) \<or> c = 133 \<or> c = 160
       \<or> c = 5760 \<or> (8192 \<le> c \<and> c \<le> 8202) \<or> c = 8232 \<or> c = 8233 \<or> c = 8239
       \<or> c = 8287 \<or> c = 12288)"

definition is_linebreak :: "nat \<Rightarrow> bool" where
  "is_linebreak c = ((10 \<le> c \<and> c \<le> 13) \<or> (28 \<le> c \<and> c \<le> 30) \<or> c = 133
       \<or> c = 8232 \<or> c = 8233)"

text \<open>A word character of the pattern \<^verbatim>\<open>\w\<close>: a letter, a digit or the underscore.
  Outside ASCII the letters and digits are a table of the interpreter, the parameter
  \<open>alnum\<close> of the model (\<^verbatim>\<open>str.isalnum\<close> on one code point).\<close>

definition is_word :: "(nat \<Rightarrow> bool) \<Rightarrow> nat \<Rightarrow> bool" where
  "is_word alnum c =
     (if c < 128
      then (48 \<le> c \<and> c \<le> 57) \<or> (65 \<le> c \<and> c \<le> 90) \<or> (97 \<le> c \<and> c \<le> 122) \<or> c = 95
      else alnum c)"

definition strip :: "str \<Rightarrow> str" where
  "strip s = rev (dropWhile is_space (rev (dropWhile is_space s)))"

definition startswith :: "str \<Rightarrow> str \<Rightarrow> bool" where
  "startswith s p = (take (length p) s = p)"

definition endswith :: "str \<Rightarrow> str \<Rightarrow> bool" where
  "endswith s p = (length p \<le> length s \<and> drop (length s - length p) s = p)"

text \<open>\<open>contains s p\<close> is \<^verbatim>\<open>p in s\<close>.\<close>

fun contains :: "str \<Rightarrow> str \<Rightarrow> bool" where
  "contains [] p = (p = [])"
| "contains (c # cs) p = (startswith (c # cs) p \<or> contains cs p)"

text \<open>\<^verbatim>\<open>sep.join(xs)\<close> and \<^verbatim>\<open>text.splitlines()\<close>; \<open>splitlines_from cur cs\<close> has read
  \<open>cur\<close> of the current line.  A carriage return followed by a line feed is one
  boundary, and a last line that is empty is not a line.\<close>

fun join :: "str \<Rightarrow> str list \<Rightarrow> str" where
  "join sep [] = []"
| "join sep [x] = x"
| "join sep (x # y # ys) = x @ sep @ join sep (y # ys)"

fun splitlines_from :: "str \<Rightarrow> str \<Rightarrow> str list" where
  "splitlines_from cur [] = (if cur = [] then [] else [cur])"
| "splitlines_from cur [c] = (if is_linebreak c then [cur] else [cur @ [c]])"
| "splitlines_from cur (c # d # cs) =
     (if c = 13 \<and> d = 10 then cur # splitlines_from [] cs
      else if is_linebreak c then cur # splitlines_from [] (d # cs)
      else splitlines_from (cur @ [c]) (d # cs))"

definition splitlines :: "str \<Rightarrow> str list" where
  "splitlines text = splitlines_from [] text"

text \<open>\<^verbatim>\<open>str(n)\<close> for a natural number.\<close>

fun str_nat :: "nat \<Rightarrow> str" where
  "str_nat n = (if n < 10 then [48 + n] else str_nat (n div 10) @ [48 + n mod 10])"

declare str_nat.simps [simp del]

text \<open>The number that a text of decimal digits denotes.\<close>

definition digits_value :: "str \<Rightarrow> nat" where
  "digits_value ds = foldl (\<lambda>a c. 10 * a + (c - 48)) 0 ds"

subsection \<open>The three patterns\<close>

text \<open>\<^verbatim>\<open>re.search\<close> tries a pattern at every position; a matcher is given the character
  before the position (none at the start) and the text from the position on.  \<^verbatim>\<open>\b\<close>
  before a word character holds when no word character precedes it, and after a word
  character when none follows.  After \<^verbatim>\<open>\s+\<close> and \<^verbatim>\<open>\s*\<close> comes a character
  that is not white space, so they take the whole run of white space.\<close>

fun search_from :: "(nat option \<Rightarrow> str \<Rightarrow> bool) \<Rightarrow> nat option \<Rightarrow> str \<Rightarrow> bool" where
  "search_from m prev [] = m prev []"
| "search_from m prev (c # cs) = (m prev (c # cs) \<or> search_from m (Some c) cs)"

definition re_search :: "(nat option \<Rightarrow> str \<Rightarrow> bool) \<Rightarrow> str \<Rightarrow> bool" where
  "re_search m s = search_from m None s"

definition boundary_before :: "(nat \<Rightarrow> bool) \<Rightarrow> nat option \<Rightarrow> bool" where
  "boundary_before alnum prev = (case prev of None \<Rightarrow> True | Some c \<Rightarrow> \<not> is_word alnum c)"

definition boundary_after :: "(nat \<Rightarrow> bool) \<Rightarrow> str \<Rightarrow> bool" where
  "boundary_after alnum rest = (case rest of [] \<Rightarrow> True | c # cs \<Rightarrow> \<not> is_word alnum c)"

text \<open>\<^verbatim>\<open>\bfunction\s+initialize\b\<close> at one position.\<close>

definition function_initialize :: "(nat \<Rightarrow> bool) \<Rightarrow> nat option \<Rightarrow> str \<Rightarrow> bool" where
  "function_initialize alnum prev s =
     (boundary_before alnum prev \<and> startswith s (u ''function'')
      \<and> takeWhile is_space (drop 8 s) \<noteq> []
      \<and> startswith (dropWhile is_space (drop 8 s)) (u ''initialize'')
      \<and> boundary_after alnum (drop 10 (dropWhile is_space (drop 8 s))))"

text \<open>\<^verbatim>\<open>\b{name}\s*\(\<close> at one position, for a name that starts with a word
  character.\<close>

definition call_of :: "(nat \<Rightarrow> bool) \<Rightarrow> str \<Rightarrow> nat option \<Rightarrow> str \<Rightarrow> bool" where
  "call_of alnum name prev s =
     (boundary_before alnum prev \<and> startswith s name
      \<and> (case dropWhile is_space (drop (length name) s) of
            [] \<Rightarrow> False
          | c # cs \<Rightarrow> c = 40))"

section \<open>grep_patterns\<close>

definition ROLE_SETTERS :: "str list" where
  "ROLE_SETTERS = [u ''updateOracle'', u ''updateBlacklister'', u ''updatePauser'',
                   u ''updateMasterMinter'', u ''updateRescuer'']"

record findings =
  init_functions :: "str list"
  unprotected_inits :: "str list"
  unprotected_role_setters :: "str list"
  internal_transfer_calls :: "str list"

text \<open>The entry \<^verbatim>\<open>f"L{i}: {line.strip()}"\<close>, the test of line 102, and the look-ahead text
  \<^verbatim>\<open>"\n".join(lines[i - 1:i + 3])\<close> for the line numbered \<open>i\<close> from 1.\<close>

definition entry :: "nat \<Rightarrow> str \<Rightarrow> str" where
  "entry i line = u ''L'' @ str_nat i @ u '': '' @ strip line"

definition is_init :: "(nat \<Rightarrow> bool) \<Rightarrow> str \<Rightarrow> bool" where
  "is_init alnum line =
     (re_search (function_initialize alnum) line
      \<or> contains line (u ''initializeV2_1'') \<or> contains line (u ''initializeV2(''))"

definition lookahead :: "str list \<Rightarrow> nat \<Rightarrow> str" where
  "lookahead lines i = join [10] (take 4 (drop (i - 1) lines))"

text \<open>The body of the loop over the role setters, and the body of the loop over the
  lines.\<close>

definition scan_setter ::
  "(nat \<Rightarrow> bool) \<Rightarrow> str list \<Rightarrow> nat \<Rightarrow> str \<Rightarrow> findings \<Rightarrow> str \<Rightarrow> findings" where
  "scan_setter alnum lines i line f setter =
     (if re_search (call_of alnum setter) line then
        (if \<not> contains (lookahead lines i) (u ''onlyOwner'')
         then f\<lparr>unprotected_role_setters := unprotected_role_setters f @ [entry i line]\<rparr>
         else f)
      else f)"

definition scan_line ::
  "(nat \<Rightarrow> bool) \<Rightarrow> str list \<Rightarrow> nat \<Rightarrow> str \<Rightarrow> findings \<Rightarrow> findings" where
  "scan_line alnum lines i line f =
     (let f1 =
        (if is_init alnum line then
           (let g = f\<lparr>init_functions := init_functions f @ [entry i line]\<rparr> in
            if \<not> contains line (u ''onlyOwner'') then
              (if \<not> contains (lookahead lines i) (u ''onlyOwner'')
               then g\<lparr>unprotected_inits := unprotected_inits g @ [entry i line]\<rparr>
               else g)
            else g)
         else f);
          f2 =
        (if re_search (call_of alnum (u ''_transfer'')) line
         then f1\<lparr>internal_transfer_calls := internal_transfer_calls f1 @ [entry i line]\<rparr>
         else f1)
      in foldl (scan_setter alnum lines i line) f2 ROLE_SETTERS)"

fun grep_lines ::
  "(nat \<Rightarrow> bool) \<Rightarrow> str list \<Rightarrow> nat \<Rightarrow> str list \<Rightarrow> findings \<Rightarrow> findings" where
  "grep_lines alnum lines i [] f = f"
| "grep_lines alnum lines i (line # rest) f =
     grep_lines alnum lines (Suc i) rest (scan_line alnum lines i line f)"

definition grep_patterns :: "(nat \<Rightarrow> bool) \<Rightarrow> str \<Rightarrow> findings" where
  "grep_patterns alnum text =
     (let lines = splitlines text in
      grep_lines alnum lines 1 lines
        \<lparr>init_functions = [], unprotected_inits = [], unprotected_role_setters = [],
         internal_transfer_calls = []\<rparr>)"

text \<open>For the statements below: whether the guard marker occurs in one of the lines of
  the window that starts at index \<open>k\<close> (from 0), and whether a line calls one of the
  role setters.\<close>

definition guard_in_window :: "str list \<Rightarrow> nat \<Rightarrow> bool" where
  "guard_in_window lines k =
     list_ex (\<lambda>line. contains line (u ''onlyOwner'')) (take 4 (drop k lines))"

definition calls_setter :: "(nat \<Rightarrow> bool) \<Rightarrow> str \<Rightarrow> bool" where
  "calls_setter alnum line = list_ex (\<lambda>s. re_search (call_of alnum s) line) ROLE_SETTERS"

section \<open>json.loads\<close>

text \<open>
  A decoded JSON value.  A number keeps its text (the program never computes with one), and
  an object is the list of its items in the order of a Python \<^verbatim>\<open>dict\<close>: a key that is set
  again keeps its place and takes the new value.
\<close>

datatype json = JNull | JBool bool | JNum str | JStr str | JArr "json list"
  | JObj "(str \<times> json) list"

fun dict_get :: "(str \<times> 'v) list \<Rightarrow> str \<Rightarrow> 'v option" where
  "dict_get [] k = None"
| "dict_get ((k', v) # kvs) k = (if k' = k then Some v else dict_get kvs k)"

fun dict_set :: "str \<Rightarrow> 'v \<Rightarrow> (str \<times> 'v) list \<Rightarrow> (str \<times> 'v) list" where
  "dict_set k v [] = [(k, v)]"
| "dict_set k v ((k', v') # kvs) = (if k' = k then (k, v) # kvs else (k', v') # dict_set k v kvs)"

subsection \<open>Tokens\<close>

text \<open>The decoder of the standard library, read as a scanner of tokens followed by a
  parser with a stack.  White space between tokens is blank, tab, line feed and carriage
  return.  The interpreter's limits on nesting depth and on the digits of an integer are
  not modelled.\<close>

datatype token = TLBrace | TRBrace | TLBracket | TRBracket | TColon | TComma | TValue json

definition is_json_ws :: "nat \<Rightarrow> bool" where
  "is_json_ws c = (c = 32 \<or> c = 9 \<or> c = 10 \<or> c = 13)"

definition is_digit :: "nat \<Rightarrow> bool" where
  "is_digit c = (48 \<le> c \<and> c \<le> 57)"

text \<open>The length of the match of \<^verbatim>\<open>(-?(?:0|[1-9]\d*))(\.\d+)?([eE][-+]?\d+)?\<close> at the start
  of a text, 0 when there is none.\<close>

definition int_len :: "str \<Rightarrow> nat" where
  "int_len s =
     (case s of
        [] \<Rightarrow> 0
      | c # cs \<Rightarrow> if c = 48 then 1
                 else if 49 \<le> c \<and> c \<le> 57 then 1 + length (takeWhile is_digit cs)
                 else 0)"

definition frac_len :: "str \<Rightarrow> nat" where
  "frac_len s =
     (case s of
        [] \<Rightarrow> 0
      | c # cs \<Rightarrow> if c = 46 \<and> takeWhile is_digit cs \<noteq> []
                 then 1 + length (takeWhile is_digit cs) else 0)"

definition exp_len :: "str \<Rightarrow> nat" where
  "exp_len s =
     (case s of
        [] \<Rightarrow> 0
      | c # cs \<Rightarrow>
          if c = 101 \<or> c = 69 then
            (let sg = (case cs of [] \<Rightarrow> 0 | d # ds \<Rightarrow> if d = 43 \<or> d = 45 then 1 else (0::nat));
                 n = length (takeWhile is_digit (drop sg cs))
             in if n = 0 then 0 else 1 + sg + n)
          else 0)"

definition number_len :: "str \<Rightarrow> nat" where
  "number_len s =
     (let sg = (case s of [] \<Rightarrow> 0 | c # cs \<Rightarrow> if c = 45 then 1 else (0::nat));
          n = int_len (drop sg s)
      in if n = 0 then 0
         else (let i = sg + n; j = i + frac_len (drop i s) in j + exp_len (drop j s)))"

text \<open>The body of a string literal, after the opening quote: the decoded text and the
  number of characters read, the closing quote included.  A control character, an unknown
  escape and a missing closing quote are errors; a \<^verbatim>\<open>\u\<close> escape of a high surrogate that
  is followed by one of a low surrogate is the one character that the pair encodes.\<close>

definition hexval :: "nat \<Rightarrow> nat option" where
  "hexval c =
     (if 48 \<le> c \<and> c \<le> 57 then Some (c - 48)
      else if 97 \<le> c \<and> c \<le> 102 then Some (c - 87)
      else if 65 \<le> c \<and> c \<le> 70 then Some (c - 55)
      else None)"

definition hex4 :: "str \<Rightarrow> nat option" where
  "hex4 s =
     (case map hexval (take 4 s) of
        [Some a, Some b, Some c, Some d] \<Rightarrow> Some (((a * 16 + b) * 16 + c) * 16 + d)
      | _ \<Rightarrow> None)"

definition simple_escape :: "nat \<Rightarrow> nat option" where
  "simple_escape e =
     (if e = 34 \<or> e = 92 \<or> e = 47 then Some e
      else if e = 98 then Some 8
      else if e = 102 then Some 12
      else if e = 110 then Some 10
      else if e = 114 then Some 13
      else if e = 116 then Some 9
      else None)"

definition low_surrogate_after :: "nat \<Rightarrow> str \<Rightarrow> nat option" where
  "low_surrogate_after v s =
     (if 55296 \<le> v \<and> v \<le> 56319 \<and> take 2 s = [92, 117] then
        (case hex4 (drop 2 s) of
           None \<Rightarrow> None
         | Some w \<Rightarrow> if 56320 \<le> w \<and> w \<le> 57343 then Some w else None)
      else None)"

definition consumed :: "nat \<Rightarrow> nat \<Rightarrow> (str \<times> nat) option \<Rightarrow> (str \<times> nat) option" where
  "consumed c n r = (case r of None \<Rightarrow> None | Some (s, m) \<Rightarrow> Some (c # s, n + m))"

function scanstring :: "str \<Rightarrow> (str \<times> nat) option" where
  "scanstring [] = None"
| "scanstring (c # cs) =
     (if c = 34 then Some ([], 1)
      else if c = 92 then
        (case cs of
           [] \<Rightarrow> None
         | e # es \<Rightarrow>
             if e = 117 then
               (case hex4 es of
                  None \<Rightarrow> None
                | Some v \<Rightarrow>
                    (case low_surrogate_after v (drop 4 es) of
                       None \<Rightarrow> consumed v 6 (scanstring (drop 4 es))
                     | Some w \<Rightarrow>
                         consumed (65536 + (v - 55296) * 1024 + (w - 56320)) 12
                           (scanstring (drop 10 es))))
             else
               (case simple_escape e of
                  None \<Rightarrow> None
                | Some d \<Rightarrow> consumed d 2 (scanstring es)))
      else if c < 32 then None
      else consumed c 1 (scanstring cs))"
  by pat_completeness auto
termination
  by (relation "measure length") auto

definition cons_token :: "token \<Rightarrow> token list option \<Rightarrow> token list option" where
  "cons_token t r = (case r of None \<Rightarrow> None | Some ts \<Rightarrow> Some (t # ts))"

function tokenize :: "str \<Rightarrow> token list option" where
  "tokenize [] = Some []"
| "tokenize (c # cs) =
     (if is_json_ws c then tokenize cs
      else if c = 123 then cons_token TLBrace (tokenize cs)
      else if c = 125 then cons_token TRBrace (tokenize cs)
      else if c = 91 then cons_token TLBracket (tokenize cs)
      else if c = 93 then cons_token TRBracket (tokenize cs)
      else if c = 58 then cons_token TColon (tokenize cs)
      else if c = 44 then cons_token TComma (tokenize cs)
      else if c = 34 then
        (case scanstring cs of
           None \<Rightarrow> None
         | Some (s, n) \<Rightarrow> cons_token (TValue (JStr s)) (tokenize (drop n cs)))
      else if startswith (c # cs) (u ''null'') then
        cons_token (TValue JNull) (tokenize (drop 3 cs))
      else if startswith (c # cs) (u ''true'') then
        cons_token (TValue (JBool True)) (tokenize (drop 3 cs))
      else if startswith (c # cs) (u ''false'') then
        cons_token (TValue (JBool False)) (tokenize (drop 4 cs))
      else if 0 < number_len (c # cs) then
        cons_token (TValue (JNum (take (number_len (c # cs)) (c # cs))))
          (tokenize (drop (number_len (c # cs) - 1) cs))
      else if startswith (c # cs) (u ''NaN'') then
        cons_token (TValue (JNum (u ''NaN''))) (tokenize (drop 2 cs))
      else if startswith (c # cs) (u ''Infinity'') then
        cons_token (TValue (JNum (u ''Infinity''))) (tokenize (drop 7 cs))
      else if startswith (c # cs) (u ''-Infinity'') then
        cons_token (TValue (JNum (u ''-Infinity''))) (tokenize (drop 8 cs))
      else None)"
  by pat_completeness auto
termination
  by (relation "measure length") auto

declare scanstring.simps [simp del] tokenize.simps [simp del]

subsection \<open>The parser\<close>

text \<open>The containers that are open, innermost first (an object with the key that waits
  for its value), and what may come next.\<close>

datatype frame = FArr "json list" | FObj "(str \<times> json) list" "str option"

datatype mode = MValue | MValueOrEnd | MKeyOrEnd | MKey | MColon | MCommaOrEnd | MDone json

text \<open>A value is complete: it is the result, an element of the open array, or the value
  of the waiting key.\<close>

definition put :: "json \<Rightarrow> frame list \<Rightarrow> (frame list \<times> mode) option" where
  "put v st =
     (case st of
        [] \<Rightarrow> Some ([], MDone v)
      | FArr xs # rest \<Rightarrow> Some (FArr (xs @ [v]) # rest, MCommaOrEnd)
      | FObj kvs None # rest \<Rightarrow> None
      | FObj kvs (Some k) # rest \<Rightarrow> Some (FObj (dict_set k v kvs) None # rest, MCommaOrEnd))"

definition start_value :: "frame list \<Rightarrow> token \<Rightarrow> (frame list \<times> mode) option" where
  "start_value st t =
     (case t of
        TValue v \<Rightarrow> put v st
      | TLBrace \<Rightarrow> Some (FObj [] None # st, MKeyOrEnd)
      | TLBracket \<Rightarrow> Some (FArr [] # st, MValueOrEnd)
      | _ \<Rightarrow> None)"

definition start_key :: "frame list \<Rightarrow> token \<Rightarrow> (frame list \<times> mode) option" where
  "start_key st t =
     (case (st, t) of
        (FObj kvs None # rest, TValue (JStr k)) \<Rightarrow> Some (FObj kvs (Some k) # rest, MColon)
      | _ \<Rightarrow> None)"

definition close_array :: "frame list \<Rightarrow> (frame list \<times> mode) option" where
  "close_array st = (case st of FArr xs # rest \<Rightarrow> put (JArr xs) rest | _ \<Rightarrow> None)"

definition close_object :: "frame list \<Rightarrow> (frame list \<times> mode) option" where
  "close_object st = (case st of FObj kvs None # rest \<Rightarrow> put (JObj kvs) rest | _ \<Rightarrow> None)"

definition advance :: "frame list \<times> mode \<Rightarrow> token \<Rightarrow> (frame list \<times> mode) option" where
  "advance sm t =
     (case sm of (st, m) \<Rightarrow>
        (case m of
           MValue \<Rightarrow> start_value st t
         | MValueOrEnd \<Rightarrow> if t = TRBracket then close_array st else start_value st t
         | MKeyOrEnd \<Rightarrow> if t = TRBrace then close_object st else start_key st t
         | MKey \<Rightarrow> start_key st t
         | MColon \<Rightarrow> if t = TColon then Some (st, MValue) else None
         | MCommaOrEnd \<Rightarrow>
             (case st of
                FArr xs # rest \<Rightarrow>
                  if t = TComma then Some (st, MValue)
                  else if t = TRBracket then close_array st else None
              | FObj kvs k # rest \<Rightarrow>
                  if t = TComma then Some (st, MKey)
                  else if t = TRBrace then close_object st else None
              | [] \<Rightarrow> None)
         | MDone v \<Rightarrow> None))"

fun run :: "(frame list \<times> mode) option \<Rightarrow> token list \<Rightarrow> (frame list \<times> mode) option" where
  "run s [] = s"
| "run None (t # ts) = None"
| "run (Some sm) (t # ts) = run (advance sm t) ts"

text \<open>\<^verbatim>\<open>json.loads\<close>: the decoded value, or \<open>None\<close> where it raises.\<close>

definition json_loads :: "str \<Rightarrow> json option" where
  "json_loads s =
     (case tokenize s of
        None \<Rightarrow> None
      | Some ts \<Rightarrow>
          (case run (Some ([], MValue)) ts of
             Some ([], MDone v) \<Rightarrow> Some v
           | _ \<Rightarrow> None))"

section \<open>expand_sources\<close>

text \<open>The explorer's record with its two members (a missing key is \<open>None\<close>).  The result
  is the list of the files written, each with its path under \<^verbatim>\<open>out_dir\<close> and its text, in
  the order of \<^verbatim>\<open>paths\<close>; failures of the file system are not modelled.\<close>

record item =
  SourceCode :: "str option"
  ContractName :: "str option"

text \<open>\<^verbatim>\<open>try_json\<close>: the text itself, then the text between its outer braces when it is
  wrapped in doubled braces; an empty candidate is skipped.\<close>

definition try_json :: "str \<Rightarrow> json option" where
  "try_json s =
     (case (if s = [] then None else json_loads s) of
        Some j \<Rightarrow> Some j
      | None \<Rightarrow>
          (let t = strip s in
           if startswith t (u ''{{'') \<and> endswith t (u ''}}'') then
             (let cand = drop 1 (butlast t) in if cand = [] then None else json_loads cand)
           else None))"

text \<open>The loop over \<^verbatim>\<open>j["sources"].items()\<close>: \<^verbatim>\<open>meta.get\<close> raises \<^verbatim>\<open>AttributeError\<close>
  on a value that is not an object, and \<^verbatim>\<open>write_text\<close> raises \<^verbatim>\<open>TypeError\<close> on a content
  that is not a text.\<close>

fun write_sources :: "(str \<times> json) list \<Rightarrow> (str \<times> str) list \<Rightarrow> error + (str \<times> str) list" where
  "write_sources [] paths = Inr paths"
| "write_sources ((rel, meta) # rest) paths =
     (case meta of
        JObj members \<Rightarrow>
          (case (case dict_get members (u ''content'') of None \<Rightarrow> JStr [] | Some c \<Rightarrow> c) of
             JStr content \<Rightarrow> write_sources rest (paths @ [(rel, content)])
           | _ \<Rightarrow> Inl TypeError)
      | _ \<Rightarrow> Inl AttributeError)"

definition fallback_name :: "str option \<Rightarrow> str" where
  "fallback_name hint =
     (let n = strip (case hint of None \<Rightarrow> u ''Contract''
                               | Some h \<Rightarrow> if h = [] then u ''Contract'' else h)
      in if n = [] then u ''Contract'' else n)"

definition expand_sources :: "item \<Rightarrow> error + (str \<times> str) list" where
  "expand_sources it =
     (let src = (case SourceCode it of None \<Rightarrow> [] | Some s \<Rightarrow> s) in
      if src = [] then Inr []
      else
        (case (case try_json src of
                 Some (JObj kvs) \<Rightarrow> dict_get kvs (u ''sources'')
               | _ \<Rightarrow> None) of
           Some sources \<Rightarrow>
             (case sources of
                JObj entries \<Rightarrow> write_sources entries []
              | _ \<Rightarrow> Inl AttributeError)
         | None \<Rightarrow> Inr [(fallback_name (ContractName it) @ u ''.sol'', src)]))"



section \<open>Concrete inputs\<close>

text \<open>Inputs on which the theorems below are run: an address, two storage words, and
  providers that return them.  The hash \<open>\<lambda>t. 0\<close> stands in for Keccak-256 there.\<close>

definition example_address :: str where
  "example_address = u ''0x00000000000000000000000000000000000000aa''"

definition zero_address :: str where
  "zero_address = u ''0x0000000000000000000000000000000000000000''"

definition example_word :: bytes where
  "example_word = replicate 12 255 @ replicate 19 0 @ [171]"

definition example_w3 :: web3 where
  "example_w3 = \<lparr>block_number = Inr 300000,
                  get_storage_at = (\<lambda>a slot. Inr example_word),
                  get_logs = (\<lambda>q. Inr [])\<rparr>"

definition zero_slot_w3 :: web3 where
  "zero_slot_w3 = \<lparr>block_number = Inr 300000,
                    get_storage_at = (\<lambda>a slot. Inr (replicate 32 0)),
                    get_logs = (\<lambda>q. Inr [])\<rparr>"


definition length_hash :: keccak where
  "length_hash t = of_nat (length t)"

definition mixed_logs :: "log list" where
  "mixed_logs =
     [\<lparr>blockNumber = 7, transactionHash = [1], topics = [replicate 31 0 @ [33], [5]]\<rparr>,
      \<lparr>blockNumber = 8, transactionHash = [2], topics = [[222, 173]]\<rparr>,
      \<lparr>blockNumber = 9, transactionHash = [3], topics = [replicate 31 0 @ [20]]\<rparr>]"

definition mixed_w3 :: web3 where
  "mixed_w3 = \<lparr>block_number = Inr 10,
      get_storage_at = (\<lambda>a slot. Inl ProviderError),
      get_logs = (\<lambda>q. Inr mixed_logs)\<rparr>"

text \<open>Source texts: an initializer with no guard near it, one with the guard on the next
  line, and a role-setter call with the guard on the fourth and on the fifth line of its
  look-ahead.\<close>

definition unguarded_init_text :: str where
  "unguarded_init_text =
     u ''contract C {\<newline>  function initialize() public {\<newline>    owner = msg.sender;\<newline>  }\<newline>}''"

definition guarded_init_text :: str where
  "guarded_init_text = u ''  function initialize() public\<newline>    onlyOwner {\<newline>  }''"

definition guard_line4_text :: str where
  "guard_line4_text = u ''updatePauser(p);\<newline>a\<newline>b\<newline>// onlyOwner\<newline>c''"

definition guard_line5_text :: str where
  "guard_line5_text = u ''updatePauser(p);\<newline>a\<newline>b\<newline>c\<newline>// onlyOwner''"

text \<open>Source payloads: the two of the round trip, one whose sources value is a number, and
  an object in doubled braces whose entries have no content or an empty one.\<close>

definition two_sources_payload :: str where
  \<open>two_sources_payload =
     u ''{"sources": {"A.sol": {"content": "X"}, "B.sol": {"content": "Y"}}}''\<close>

definition plain_payload :: str where
  "plain_payload = u ''contract C {}''"





section \<open>Properties of the address codec\<close>

lemma hexdigit_is_hex: "d < 16 \<Longrightarrow> is_hex_char (hexdigit d)"
  by (auto simp: is_hex_char_def hexdigit_def)

lemma hexdigit_lower: "d < 16 \<Longrightarrow> ascii_lower (hexdigit d) = hexdigit d"
  by (auto simp: ascii_lower_def hexdigit_def)

lemma hexdigit_not_x: "d < 16 \<Longrightarrow> hexdigit d \<noteq> 120 \<and> hexdigit d \<noteq> 88"
  by (auto simp: hexdigit_def)

lemma unat_byte_div: "unat (b :: 8 word) div 16 < 16"
proof -
  have "unat b < 256" using unsigned_less [of b, where ?'a = nat] by simp
  then show ?thesis by simp
qed

lemma length_hex: "length (hex bs) = 2 * length bs"
  by (induction bs) (simp_all add: hex_def hex_of_byte_def)

lemma hex_all_hex: "list_all is_hex_char (hex bs)"
  by (induction bs) (simp_all add: hex_def hex_of_byte_def hexdigit_is_hex unat_byte_div)

lemma hex_lower: "map ascii_lower (hex bs) = hex bs"
  by (induction bs) (simp_all add: hex_def hex_of_byte_def hexdigit_lower unat_byte_div)

lemma hex_no_prefix: "remove_0x_prefix (hex bs) = hex bs"
proof (cases bs)
  case Nil
  then show ?thesis by (simp add: remove_0x_prefix_def hex_def)
next
  case (Cons b bs')
  have "hexdigit (unat b mod 16) \<noteq> 120 \<and> hexdigit (unat b mod 16) \<noteq> 88"
    by (rule hexdigit_not_x) simp
  with Cons show ?thesis
    by (simp add: remove_0x_prefix_def hex_def hex_of_byte_def u_def)
qed

lemma to_checksum_address_hex:
  "length bs = 20 \<Longrightarrow> to_checksum_address keccak (hex bs) = Inr (checksum_encode keccak (hex bs))"
  by (simp add: to_checksum_address_def hex_no_prefix hex_all_hex length_hex hex_lower)

lemma hex_zero: "hex (replicate n 0) = replicate (2 * n) 48"
  by (induction n) (simp_all add: hex_def hex_of_byte_def hexdigit_def)

lemma enumerate_replicate_map:
  "map (\<lambda>(i, c). if P i then f c else c) (enumerate k (replicate n x)) = replicate n x"
  if "f x = x"
  using that by (induction n arbitrary: k) simp_all

lemma checksum_zero: "checksum_encode keccak (replicate 40 48) = u ''0x'' @ replicate 40 48"
  by (simp add: checksum_encode_def Let_def enumerate_replicate_map ascii_upper_def)

lemma zero_address_text: "zero_address = u ''0x'' @ replicate 40 48"
  unfolding zero_address_def by code_simp

lemma checksum_zero_word:
  "checksum_encode keccak (hex (drop 12 (replicate 32 0))) = zero_address"
  by (simp add: hex_zero checksum_zero zero_address_text)

lemma checksum_nonempty: "checksum_encode keccak d \<noteq> []"
  by (simp add: checksum_encode_def Let_def u_def)

lemma to_checksum_address_nonempty: "to_checksum_address keccak v = Inr a \<Longrightarrow> a \<noteq> []"
  by (auto simp: to_checksum_address_def Let_def checksum_nonempty split: if_splits)

lemma detect_nonempty: "detect_proxy_and_impl keccak w3 p = Some i \<Longrightarrow> i \<noteq> []"
  by (auto simp: detect_proxy_and_impl_def to_checksum_address_nonempty
      split: sum.splits if_splits)

lemma lower_hex_of_hex: "is_hex_char c \<Longrightarrow> lower_hex (ascii_lower c)"
  by (auto simp: is_hex_char_def lower_hex_def ascii_lower_def)

lemma lower_hex_hexdigit: "d < 16 \<Longrightarrow> lower_hex (hexdigit d)"
  by (auto simp: lower_hex_def hexdigit_def)

lemma lower_hex_hex: "list_all lower_hex (hex bs)"
  by (induction bs) (simp_all add: hex_def hex_of_byte_def lower_hex_hexdigit unat_byte_div)

lemma lower_hex_facts:
  "lower_hex c \<Longrightarrow> is_hex_char c \<and> is_hex_char (ascii_upper c) \<and> ascii_lower c = c
     \<and> ascii_lower (ascii_upper c) = c"
  by (auto simp: is_hex_char_def lower_hex_def ascii_lower_def ascii_upper_def)

lemma mixed_case_facts:
  "list_all lower_hex d \<Longrightarrow>
     list_all is_hex_char (map (\<lambda>(i, c). if P i then ascii_upper c else c) (enumerate k d))
   \<and> map ascii_lower (map (\<lambda>(i, c). if P i then ascii_upper c else c) (enumerate k d)) = d"
  by (induction d arbitrary: k) (auto simp: lower_hex_facts)

lemma checksum_encode_drop:
  "drop 2 (checksum_encode keccak d) =
     map (\<lambda>(i, c). if nibble (keccak d) i > 7 then ascii_upper c else c) (enumerate 0 d)"
  by (simp add: checksum_encode_def Let_def u_def)

lemma checksum_encode_take: "take 2 (checksum_encode keccak d) = u ''0x''"
  by (simp add: checksum_encode_def Let_def u_def)

lemma checksum_encode_lower:
  "list_all lower_hex d \<Longrightarrow> map ascii_lower (drop 2 (checksum_encode keccak d)) = d"
  using mixed_case_facts [of d "\<lambda>i. nibble (keccak d) i > 7" 0]
  by (simp add: checksum_encode_drop)

lemma checksum_encode_valid:
  assumes "list_all lower_hex d" and "length d = 40"
  shows "to_checksum_address keccak (checksum_encode keccak d) = Inr (checksum_encode keccak d)"
proof -
  have "remove_0x_prefix (checksum_encode keccak d) = drop 2 (checksum_encode keccak d)"
    by (simp add: remove_0x_prefix_def checksum_encode_take)
  moreover have "list_all is_hex_char (drop 2 (checksum_encode keccak d))"
    using mixed_case_facts [OF assms(1), of "\<lambda>i. nibble (keccak d) i > 7" 0]
    by (simp add: checksum_encode_drop)
  moreover have "length (drop 2 (checksum_encode keccak d)) = 40"
    using assms(2) by (simp add: checksum_encode_drop)
  ultimately show ?thesis
    using checksum_encode_lower [OF assms(1), of keccak]
    by (simp add: to_checksum_address_def)
qed

text \<open>A checksummed address is a fixed point of \<open>to_checksum_address\<close>: \<^verbatim>\<open>main\<close> hands
  the address it normalised to the functions that normalise it again.\<close>

lemma to_checksum_address_idem:
  assumes "to_checksum_address keccak v = Inr a"
  shows "to_checksum_address keccak a = Inr a"
proof -
  let ?h = "remove_0x_prefix v"
  from assms have h: "list_all is_hex_char ?h" "length ?h = 40"
    and a: "a = checksum_encode keccak (map ascii_lower ?h)"
    by (auto simp: to_checksum_address_def Let_def split: if_splits)
  have "list_all lower_hex (map ascii_lower ?h)"
    using h(1) by (simp add: list_all_iff lower_hex_of_hex)
  then show ?thesis
    using checksum_encode_valid [of "map ascii_lower ?h" keccak] h(2) a by simp
qed

lemma nibble_zero: "nibble 0 i = 0"
  by (simp add: nibble_def)

lemma example_address_valid:
  "to_checksum_address (\<lambda>t. 0) example_address = Inr example_address"
  by (simp add: to_checksum_address_def example_address_def u_def remove_0x_prefix_def
      is_hex_char_def ascii_lower_def checksum_encode_def nibble_zero enumerate_eq_zip)

section \<open>Properties of detect_proxy_and_impl\<close>

lemma detect_read:
  assumes "to_checksum_address keccak proxy_addr = Inr a"
  shows "detect_proxy_and_impl keccak w3 proxy_addr =
     (case get_storage_at w3 a EIP1967_IMPLEMENTATION_SLOT of
        Inl e \<Rightarrow> None
      | Inr raw \<Rightarrow> if length raw = 32
                   then Some (checksum_encode keccak (hex (drop 12 raw))) else None)"
  using assms
  by (auto simp: detect_proxy_and_impl_def to_checksum_address_hex split: sum.splits)

text \<open>
  Claim C1.  Let the address handed to the resolver be a valid one, so that the slot is
  read.  A read that returns exactly 32 bytes gives the checksummed address of the
  low-order 20 bytes of the word: the result is \<^verbatim>\<open>0x\<close> followed by 40 digits that, in
  lower case, are the hexadecimal text of the last 20 bytes.  The all-zero word gives the
  zero address as a present result.  A read of any other length (the empty result
  included) and a read that fails give \<^verbatim>\<open>None\<close>.
\<close>

theorem resolve_low_order_20_bytes:
  assumes "to_checksum_address keccak proxy_addr = Inr a"
  shows "(\<forall>raw. get_storage_at w3 a EIP1967_IMPLEMENTATION_SLOT = Inr raw \<and> length raw = 32 \<longrightarrow>
            detect_proxy_and_impl keccak w3 proxy_addr
              = Some (checksum_encode keccak (hex (drop 12 raw)))
          \<and> take 2 (checksum_encode keccak (hex (drop 12 raw))) = u ''0x''
          \<and> map ascii_lower (drop 2 (checksum_encode keccak (hex (drop 12 raw))))
              = hex (drop 12 raw))
       \<and> (get_storage_at w3 a EIP1967_IMPLEMENTATION_SLOT = Inr (replicate 32 0) \<longrightarrow>
            detect_proxy_and_impl keccak w3 proxy_addr
              = Some (u ''0x0000000000000000000000000000000000000000''))
       \<and> (\<forall>raw. get_storage_at w3 a EIP1967_IMPLEMENTATION_SLOT = Inr raw \<and> length raw \<noteq> 32 \<longrightarrow>
            detect_proxy_and_impl keccak w3 proxy_addr = None)
       \<and> (\<forall>e. get_storage_at w3 a EIP1967_IMPLEMENTATION_SLOT = Inl e \<longrightarrow>
            detect_proxy_and_impl keccak w3 proxy_addr = None)"
  using checksum_zero_word [of keccak]
  by (simp add: detect_read [OF assms] checksum_encode_take checksum_encode_lower
      lower_hex_hex zero_address_def)

theorem resolve_low_order_20_bytes_witness:
  "to_checksum_address (\<lambda>t. 0) example_address = Inr example_address
   \<and> get_storage_at example_w3 example_address EIP1967_IMPLEMENTATION_SLOT = Inr example_word
   \<and> length example_word = 32
   \<and> detect_proxy_and_impl (\<lambda>t. 0) example_w3 example_address
        = Some (u ''0x00000000000000000000000000000000000000ab'')"
proof -
  have r: "get_storage_at example_w3 example_address EIP1967_IMPLEMENTATION_SLOT = Inr example_word"
    by (simp add: example_w3_def)
  have l: "length example_word = 32"
    by (simp add: example_word_def)
  have c: "checksum_encode (\<lambda>t. 0) (hex (drop 12 example_word))
             = u ''0x00000000000000000000000000000000000000ab''"
    by code_simp
  show ?thesis
    using resolve_low_order_20_bytes [OF example_address_valid, of example_w3] r l c
      example_address_valid
    by simp
qed

section \<open>Properties of main\<close>

lemma main_setup_Inr:
  assumes "main_setup keccak w3 a = Inr p"
  shows "to_checksum_address keccak (arg_address a) = Inr (address p)"
    and "block_number w3 = Inr (latest p)"
    and "from_block p = or_int (arg_from_block a) (max 0 (latest p - 200000))"
    and "to_block p = or_int (arg_to_block a) (latest p)"
    and "impl p = detect_proxy_and_impl keccak w3 (address p)"
    and "target p = or_str (impl p) (address p)"
  using assms by (auto simp: main_setup_def Let_def split: sum.splits)

lemma main_setup_example:
  "main_setup (\<lambda>t. 0) zero_slot_w3
      \<lparr>arg_address = example_address, arg_from_block = Some 0, arg_to_block = Some 0\<rparr>
     = Inr \<lparr>address = example_address, latest = 300000, from_block = 100000,
            to_block = 300000, impl = Some zero_address, target = zero_address\<rparr>"
proof -
  have "zero_address \<noteq> []"
    by (simp add: zero_address_def u_def)
  then show ?thesis
    using checksum_zero_word [of "\<lambda>t. 0"]
    by (simp add: main_setup_def example_address_valid detect_read [OF example_address_valid]
        zero_slot_w3_def or_int_def or_str_def)
qed

text \<open>
  Claim C9.  In a run that reaches the source fetch, the implementation is what the
  resolver returns for the audited address.  A present result is a non-empty text and is
  the fetch target; the target is the audited address itself when the result is absent.
  So when the slot read yields the all-zero 32-byte word, the fetch target is the zero
  address \<^verbatim>\<open>0x0000000000000000000000000000000000000000\<close>.
\<close>

theorem fetch_target_is_resolver_result:
  assumes "main_setup keccak w3 a = Inr p"
  shows "impl p = detect_proxy_and_impl keccak w3 (address p)
       \<and> (\<forall>i. impl p = Some i \<longrightarrow> i \<noteq> [] \<and> target p = i)
       \<and> (impl p = None \<longrightarrow> target p = address p)
       \<and> (get_storage_at w3 (address p) EIP1967_IMPLEMENTATION_SLOT = Inr (replicate 32 0) \<longrightarrow>
            target p = u ''0x0000000000000000000000000000000000000000'')"
proof -
  note s = main_setup_Inr [OF assms]
  have valid: "to_checksum_address keccak (address p) = Inr (address p)"
    using s(1) by (rule to_checksum_address_idem)
  have nonempty: "zero_address \<noteq> []"
    by (simp add: zero_address_def u_def)
  have "\<forall>i. impl p = Some i \<longrightarrow> i \<noteq> []"
    using s(5) detect_nonempty [of keccak w3 "address p"] by auto
  moreover have
    "get_storage_at w3 (address p) EIP1967_IMPLEMENTATION_SLOT = Inr (replicate 32 0) \<longrightarrow>
       target p = zero_address"
    using checksum_zero_word [of keccak] nonempty
    by (simp add: s(6) s(5) detect_read [OF valid] or_str_def)
  ultimately show ?thesis
    using s(5) by (auto simp: s(6) or_str_def zero_address_def)
qed

theorem fetch_target_is_resolver_result_witness:
  "main_setup (\<lambda>t. 0) zero_slot_w3
      \<lparr>arg_address = example_address, arg_from_block = Some 0, arg_to_block = Some 0\<rparr>
     = Inr \<lparr>address = example_address, latest = 300000, from_block = 100000,
            to_block = 300000, impl = Some zero_address, target = zero_address\<rparr>
   \<and> get_storage_at zero_slot_w3 example_address EIP1967_IMPLEMENTATION_SLOT = Inr (replicate 32 0)
   \<and> zero_address = u ''0x0000000000000000000000000000000000000000''
   \<and> zero_address \<noteq> example_address"
proof -
  have "zero_address \<noteq> example_address"
    by (simp add: zero_address_def example_address_def u_def)
  then show ?thesis
    using fetch_target_is_resolver_result [OF main_setup_example] main_setup_example
    by (simp add: zero_slot_w3_def zero_address_def)
qed

text \<open>
  Claim C10.  A block bound given as 0 is treated as one that was not given: the run is
  the same as without it.  In a run that reaches the scan, from-block 0 is replaced by
  \<open>max 0 (latest - 200000)\<close> and to-block 0 by the latest block height, and when the
  latest height is above 200000 the scan's first block is not 0, whatever the arguments.
\<close>

theorem explicit_zero_block_bound_is_default:
  "main_setup keccak w3 (a\<lparr>arg_from_block := Some 0\<rparr>)
     = main_setup keccak w3 (a\<lparr>arg_from_block := None\<rparr>)
   \<and> main_setup keccak w3 (a\<lparr>arg_to_block := Some 0\<rparr>)
     = main_setup keccak w3 (a\<lparr>arg_to_block := None\<rparr>)
   \<and> (main_setup keccak w3 a = Inr p \<longrightarrow>
        block_number w3 = Inr (latest p)
      \<and> (arg_from_block a = Some 0 \<longrightarrow> from_block p = max 0 (latest p - 200000))
      \<and> (arg_to_block a = Some 0 \<longrightarrow> to_block p = latest p)
      \<and> (200000 < latest p \<longrightarrow> from_block p \<noteq> 0))"
proof -
  have "main_setup keccak w3 a = Inr p \<Longrightarrow> 200000 < latest p \<Longrightarrow> from_block p \<noteq> 0"
    by (auto simp: main_setup_Inr(3) or_int_def split: option.splits)
  moreover have "main_setup keccak w3 a = Inr p \<Longrightarrow> arg_from_block a = Some 0
      \<Longrightarrow> from_block p = max 0 (latest p - 200000)"
    by (simp add: main_setup_Inr(3) or_int_def)
  moreover have "main_setup keccak w3 a = Inr p \<Longrightarrow> arg_to_block a = Some 0
      \<Longrightarrow> to_block p = latest p"
    by (simp add: main_setup_Inr(4) or_int_def)
  moreover have "main_setup keccak w3 a = Inr p \<Longrightarrow> block_number w3 = Inr (latest p)"
    by (rule main_setup_Inr(2))
  moreover have "main_setup keccak w3 (a\<lparr>arg_from_block := Some 0\<rparr>)
      = main_setup keccak w3 (a\<lparr>arg_from_block := None\<rparr>)"
    by (simp add: main_setup_def or_int_def Let_def split: sum.splits)
  moreover have "main_setup keccak w3 (a\<lparr>arg_to_block := Some 0\<rparr>)
      = main_setup keccak w3 (a\<lparr>arg_to_block := None\<rparr>)"
    by (simp add: main_setup_def or_int_def Let_def split: sum.splits)
  ultimately show ?thesis by blast
qed

theorem explicit_zero_block_bound_is_default_witness:
  "main_setup (\<lambda>t. 0) zero_slot_w3
      \<lparr>arg_address = example_address, arg_from_block = Some 0, arg_to_block = Some 0\<rparr>
     = Inr \<lparr>address = example_address, latest = 300000, from_block = 100000,
            to_block = 300000, impl = Some zero_address, target = zero_address\<rparr>
   \<and> block_number zero_slot_w3 = Inr 300000"
  using explicit_zero_block_bound_is_default [of "\<lambda>t. 0" zero_slot_w3
      "\<lparr>arg_address = example_address, arg_from_block = Some 0, arg_to_block = Some 0\<rparr>"
      "\<lparr>address = example_address, latest = 300000, from_block = 100000,
            to_block = 300000, impl = Some zero_address, target = zero_address\<rparr>"]
    main_setup_example
  by simp

section \<open>Properties of scan_logs\<close>



lemma first_topic_retain: "event_first_topic (retain l) = first_topic l"
  by (simp add: event_first_topic_def retain_def first_topic_def split: list.splits)

lemma classify_eq:
  "classify keccak acc l =
     (if topics l = [] then Inl IndexError else Inr (add_logs keccak acc [l]))"
  by (cases acc)
     (auto simp: classify_def add_logs_def of_kind_def kind_of_def first_topic_def Let_def
           split: list.splits)

lemma add_logs_Nil: "add_logs keccak acc [] = acc"
  by (simp add: add_logs_def of_kind_def)

lemma add_logs_append: "add_logs keccak (add_logs keccak acc xs) ys = add_logs keccak acc (xs @ ys)"
  by (simp add: add_logs_def of_kind_def)

lemma classify_all_eq:
  "classify_all keccak acc ls =
     (if \<forall>l\<in>set ls. topics l \<noteq> [] then Inr (add_logs keccak acc ls) else Inl IndexError)"
proof (induction ls arbitrary: acc)
  case Nil
  then show ?case by (simp add: add_logs_Nil)
next
  case (Cons l ls)
  have "add_logs keccak (add_logs keccak acc [l]) ls = add_logs keccak acc (l # ls)"
    by (simp add: add_logs_append)
  with Cons show ?case by (simp add: classify_eq)
qed

lemma returned_logs_Cons:
  "returned_logs w3 (q # qs) =
     (case get_logs w3 q of Inl e \<Rightarrow> [] | Inr logs \<Rightarrow> logs) @ returned_logs w3 qs"
  by (simp add: returned_logs_def)

lemma scan_windows_ok:
  assumes "\<forall>l\<in>set (returned_logs w3 (map (\<lambda>s. window addr s (min to_blk (s + step - 1))) starts)).
             topics l \<noteq> []"
  shows "scan_windows keccak w3 addr to_blk step starts (acc, sent) =
     (Inr (add_logs keccak acc
             (returned_logs w3 (map (\<lambda>s. window addr s (min to_blk (s + step - 1))) starts))),
      sent @ map (\<lambda>s. window addr s (min to_blk (s + step - 1))) starts)"
  using assms
proof (induction starts arbitrary: acc sent)
  case Nil
  then show ?case by (simp add: returned_logs_def add_logs_Nil)
next
  case (Cons s starts)
  show ?case
  proof (cases "get_logs w3 (window addr s (min to_blk (s + step - 1)))")
    case (Inl e)
    with Cons show ?thesis
      by (simp add: returned_logs_Cons window_def)
  next
    case (Inr logs)
    with Cons show ?thesis
      by (simp add: returned_logs_Cons window_def classify_all_eq add_logs_append)
  qed
qed

lemma scan_windows_Inr:
  assumes "scan_windows keccak w3 addr to_blk step starts (acc, sent) = (Inr out, qs)"
  shows "\<forall>l\<in>set (returned_logs w3 (map (\<lambda>s. window addr s (min to_blk (s + step - 1))) starts)).
           topics l \<noteq> []"
  using assms
proof (induction starts arbitrary: acc sent)
  case Nil
  then show ?case by (simp add: returned_logs_def)
next
  case (Cons s starts)
  show ?case
  proof (cases "get_logs w3 (window addr s (min to_blk (s + step - 1)))")
    case (Inl e)
    with Cons show ?thesis
      by (simp add: returned_logs_Cons window_def)
  next
    case (Inr logs)
    with Cons.prems have ok: "\<forall>l\<in>set logs. topics l \<noteq> []"
      by (auto simp: window_def classify_all_eq split: if_splits)
    with Inr Cons.prems have
      "scan_windows keccak w3 addr to_blk step starts
         (add_logs keccak acc logs, sent @ [window addr s (min to_blk (s + step - 1))]) = (Inr out, qs)"
      by (simp add: window_def classify_all_eq)
    from Cons.IH [OF this] ok Inr show ?thesis
      by (auto simp: returned_logs_Cons)
  qed
qed







lemma of_kind_member:
  "e \<in> set (of_kind keccak k ls) \<longleftrightarrow>
     (\<exists>l\<in>set ls. e = retain l \<and> kind_of keccak (first_topic l) = Some k)"
  by (auto simp: of_kind_def)

lemma of_kind_event:
  "e \<in> set (of_kind keccak k ls) \<Longrightarrow> kind_of keccak (event_first_topic e) = Some k"
  by (auto simp: of_kind_def first_topic_retain)

lemma kind_of_distinct:
  assumes "distinct [TRANSFER_TOPIC keccak, BLACKLISTED_TOPIC keccak, UPGR_TOPIC keccak]"
  shows "kind_of keccak t = Some Transfer \<longleftrightarrow> t = Some (TRANSFER_TOPIC keccak)"
    and "kind_of keccak t = Some Blacklisted \<longleftrightarrow> t = Some (BLACKLISTED_TOPIC keccak)"
    and "kind_of keccak t = Some Upgraded \<longleftrightarrow> t = Some (UPGR_TOPIC keccak)"
    and "kind_of keccak t = None \<longleftrightarrow>
           t \<notin> {Some (TRANSFER_TOPIC keccak), Some (BLACKLISTED_TOPIC keccak),
                 Some (UPGR_TOPIC keccak)}"
  using assms by (auto simp: kind_of_def split: option.splits)

lemma scan_logs_Inr:
  assumes "scan_logs keccak w3 addr_text from_blk to_blk step = (Inr out, qs)"
  shows "out = add_logs keccak \<lparr>transfer = [], blacklisted = [], upgraded = []\<rparr>
                 (returned_logs w3 qs)"
    and "\<forall>l\<in>set (returned_logs w3 qs). topics l \<noteq> []"
proof -
  from assms obtain addr starts where
    run: "scan_windows keccak w3 addr to_blk step starts
            (\<lparr>transfer = [], blacklisted = [], upgraded = []\<rparr>, []) = (Inr out, qs)"
    by (auto simp: scan_logs_def split: sum.splits)
  let ?qs = "map (\<lambda>s. window addr s (min to_blk (s + step - 1))) starts"
  have ok: "\<forall>l\<in>set (returned_logs w3 ?qs). topics l \<noteq> []"
    using run by (rule scan_windows_Inr)
  from scan_windows_ok [OF ok, of keccak "\<lparr>transfer = [], blacklisted = [], upgraded = []\<rparr>" "[]"] run
  have "qs = ?qs" and "out = add_logs keccak \<lparr>transfer = [], blacklisted = [], upgraded = []\<rparr>
                 (returned_logs w3 ?qs)"
    by simp_all
  with ok show "out = add_logs keccak \<lparr>transfer = [], blacklisted = [], upgraded = []\<rparr>
                 (returned_logs w3 qs)"
    and "\<forall>l\<in>set (returned_logs w3 qs). topics l \<noteq> []"
    by simp_all
qed

text \<open>
  Claim C5.  When \<^verbatim>\<open>scan_logs\<close> returns a result and the three signature hashes differ,
  each of the three lists holds, in order, the kept form of exactly those returned logs
  whose first topic equals the list's hash.  No event is in two lists; a returned log whose
  first topic is none of the three hashes is in no list, and one whose first topic is one
  of them is in a list.
\<close>

theorem classification_by_first_topic:
  assumes "scan_logs keccak w3 addr_text from_blk to_blk step = (Inr out, qs)"
    and "distinct [TRANSFER_TOPIC keccak, BLACKLISTED_TOPIC keccak, UPGR_TOPIC keccak]"
  shows "transfer out = map retain (filter (\<lambda>l. first_topic l = Some (TRANSFER_TOPIC keccak))
                                      (returned_logs w3 qs))
       \<and> blacklisted out = map retain (filter (\<lambda>l. first_topic l = Some (BLACKLISTED_TOPIC keccak))
                                      (returned_logs w3 qs))
       \<and> upgraded out = map retain (filter (\<lambda>l. first_topic l = Some (UPGR_TOPIC keccak))
                                      (returned_logs w3 qs))
       \<and> (\<forall>e. \<not> (e \<in> set (transfer out) \<and> e \<in> set (blacklisted out))
             \<and> \<not> (e \<in> set (transfer out) \<and> e \<in> set (upgraded out))
             \<and> \<not> (e \<in> set (blacklisted out) \<and> e \<in> set (upgraded out)))
       \<and> (\<forall>l\<in>set (returned_logs w3 qs).
             first_topic l \<notin> {Some (TRANSFER_TOPIC keccak), Some (BLACKLISTED_TOPIC keccak),
                                Some (UPGR_TOPIC keccak)} \<longrightarrow>
             retain l \<notin> set (transfer out) \<union> set (blacklisted out) \<union> set (upgraded out))
       \<and> (\<forall>l\<in>set (returned_logs w3 qs).
             first_topic l \<in> {Some (TRANSFER_TOPIC keccak), Some (BLACKLISTED_TOPIC keccak),
                                Some (UPGR_TOPIC keccak)} \<longrightarrow>
             retain l \<in> set (transfer out) \<union> set (blacklisted out) \<union> set (upgraded out))"
proof -
  note k = kind_of_distinct [OF assms(2)]
  let ?ls = "returned_logs w3 qs"
  have out: "transfer out = of_kind keccak Transfer ?ls"
    "blacklisted out = of_kind keccak Blacklisted ?ls"
    "upgraded out = of_kind keccak Upgraded ?ls"
    by (simp_all add: scan_logs_Inr(1) [OF assms(1)] add_logs_def)
  have lists: "transfer out = map retain (filter (\<lambda>l. first_topic l = Some (TRANSFER_TOPIC keccak)) ?ls)"
    "blacklisted out = map retain (filter (\<lambda>l. first_topic l = Some (BLACKLISTED_TOPIC keccak)) ?ls)"
    "upgraded out = map retain (filter (\<lambda>l. first_topic l = Some (UPGR_TOPIC keccak)) ?ls)"
    by (simp_all add: out of_kind_def k)
  have excl: "\<not> (e \<in> set (of_kind keccak k1 ?ls) \<and> e \<in> set (of_kind keccak k2 ?ls))"
    if "k1 \<noteq> k2" for e k1 k2
    using that by (auto dest!: of_kind_event)
  have none: "retain l \<notin> set (of_kind keccak k' ?ls)"
    if "kind_of keccak (first_topic l) = None" for l k'
    using that of_kind_event [of "retain l" keccak k' ?ls] by (auto simp: first_topic_retain)
  have some: "retain l \<in> set (of_kind keccak k' ?ls)"
    if "l \<in> set ?ls" "kind_of keccak (first_topic l) = Some k'" for l k'
    using that by (auto simp: of_kind_member)
  have a: "\<forall>e. \<not> (e \<in> set (transfer out) \<and> e \<in> set (blacklisted out))
             \<and> \<not> (e \<in> set (transfer out) \<and> e \<in> set (upgraded out))
             \<and> \<not> (e \<in> set (blacklisted out) \<and> e \<in> set (upgraded out))"
    using excl [of Transfer Blacklisted] excl [of Transfer Upgraded] excl [of Blacklisted Upgraded]
    by (simp add: out)
  have b: "\<forall>l\<in>set ?ls.
             first_topic l \<notin> {Some (TRANSFER_TOPIC keccak), Some (BLACKLISTED_TOPIC keccak),
                                Some (UPGR_TOPIC keccak)} \<longrightarrow>
             retain l \<notin> set (transfer out) \<union> set (blacklisted out) \<union> set (upgraded out)"
    using none by (simp add: out k(4))
  have c: "\<forall>l\<in>set ?ls.
             first_topic l \<in> {Some (TRANSFER_TOPIC keccak), Some (BLACKLISTED_TOPIC keccak),
                                Some (UPGR_TOPIC keccak)} \<longrightarrow>
             retain l \<in> set (transfer out) \<union> set (blacklisted out) \<union> set (upgraded out)"
    using some [of _ Transfer] some [of _ Blacklisted] some [of _ Upgraded]
    by (auto simp: out k(1,2,3))
  show ?thesis
    using lists a b c by blast
qed

lemma mixed_scan:
  "scan_logs length_hash mixed_w3 example_address 0 10 50000 =
     (Inr \<lparr>transfer = [retain (mixed_logs ! 0)], blacklisted = [retain (mixed_logs ! 2)],
           upgraded = []\<rparr>,
      [window example_address 0 10])"
  by code_simp

lemma length_hash_distinct:
  "distinct [TRANSFER_TOPIC length_hash, BLACKLISTED_TOPIC length_hash, UPGR_TOPIC length_hash]"
  by code_simp

theorem classification_by_first_topic_witness:
  "scan_logs length_hash mixed_w3 example_address 0 10 50000 =
     (Inr \<lparr>transfer = [retain (mixed_logs ! 0)], blacklisted = [retain (mixed_logs ! 2)],
           upgraded = []\<rparr>,
      [window example_address 0 10])
   \<and> distinct [TRANSFER_TOPIC length_hash, BLACKLISTED_TOPIC length_hash, UPGR_TOPIC length_hash]
   \<and> returned_logs mixed_w3 [window example_address 0 10] = mixed_logs
   \<and> first_topic (mixed_logs ! 0) = Some (TRANSFER_TOPIC length_hash)
   \<and> first_topic (mixed_logs ! 1) = Some (u ''dead'')
   \<and> first_topic (mixed_logs ! 2) = Some (BLACKLISTED_TOPIC length_hash)
   \<and> retain (mixed_logs ! 1) \<noteq> retain (mixed_logs ! 0)
   \<and> retain (mixed_logs ! 1) \<noteq> retain (mixed_logs ! 2)"
proof -
  have a: "returned_logs mixed_w3 [window example_address 0 10] = mixed_logs"
    by (simp add: returned_logs_def mixed_w3_def)
  have b: "first_topic (mixed_logs ! 0) = Some (TRANSFER_TOPIC length_hash)"
    "first_topic (mixed_logs ! 1) = Some (u ''dead'')"
    "first_topic (mixed_logs ! 2) = Some (BLACKLISTED_TOPIC length_hash)"
    by code_simp+
  have c: "retain (mixed_logs ! 1) \<noteq> retain (mixed_logs ! 0)"
    "retain (mixed_logs ! 1) \<noteq> retain (mixed_logs ! 2)"
    by (simp_all add: mixed_logs_def retain_def)
  show ?thesis
    using classification_by_first_topic [OF mixed_scan length_hash_distinct]
      mixed_scan length_hash_distinct a b c
    by simp
qed

section \<open>Properties of the text operations\<close>

lemma startswith_iff: "startswith s p \<longleftrightarrow> (\<exists>b. s = p @ b)"
proof
  assume "startswith s p"
  then have "s = p @ drop (length p) s"
    by (metis append_take_drop_id startswith_def)
  then show "\<exists>b. s = p @ b" ..
next
  assume "\<exists>b. s = p @ b"
  then show "startswith s p" by (auto simp: startswith_def)
qed

lemma contains_iff: "contains s p \<longleftrightarrow> (\<exists>a b. s = a @ p @ b)"
proof (induction s)
  case Nil
  then show ?case by simp
next
  case (Cons c cs)
  show ?case
  proof
    assume "contains (c # cs) p"
    then consider "startswith (c # cs) p" | "contains cs p" by auto
    then show "\<exists>a b. c # cs = a @ p @ b"
    proof cases
      case 1
      then obtain b where "c # cs = p @ b" by (auto simp: startswith_iff)
      then have "c # cs = [] @ p @ b" by simp
      then show ?thesis by blast
    next
      case 2
      with Cons obtain a b where "cs = a @ p @ b" by auto
      then have "c # cs = (c # a) @ p @ b" by simp
      then show ?thesis by blast
    qed
  next
    assume "\<exists>a b. c # cs = a @ p @ b"
    then obtain a b where ab: "c # cs = a @ p @ b" by auto
    show "contains (c # cs) p"
    proof (cases a)
      case Nil
      with ab have "startswith (c # cs) p" unfolding startswith_iff by auto
      then show ?thesis by simp
    next
      case (Cons x a')
      with ab have "cs = a' @ p @ b" by simp
      with Cons.IH show ?thesis by auto
    qed
  qed
qed

lemma contains_append_sep:
  assumes "c \<notin> set p" and "p \<noteq> []"
  shows "contains (x @ c # y) p \<longleftrightarrow> contains x p \<or> contains y p"
proof
  assume "contains (x @ c # y) p"
  then obtain a b where ab: "x @ c # y = a @ p @ b" by (auto simp: contains_iff)
  then consider (l) t where "x = a @ t" "t @ c # y = p @ b" | (r) t where "x @ t = a" "c # y = t @ p @ b"
    by (auto simp: append_eq_append_conv2)
  then show "contains x p \<or> contains y p"
  proof cases
    case l
    from l(2) consider (l1) t' where "t = p @ t'" | (l2) t' where "t @ t' = p" "c # y = t' @ b"
      by (auto simp: append_eq_append_conv2)
    then show ?thesis
    proof cases
      case l1
      with l(1) have "x = a @ p @ t'" by simp
      then show ?thesis by (auto simp: contains_iff)
    next
      case l2
      show ?thesis
      proof (cases t')
        case Nil
        with l2 l(1) have "x = a @ p @ []" by simp
        then show ?thesis unfolding contains_iff by blast
      next
        case (Cons d t'')
        with l2 have "c \<in> set p" by auto
        with assms show ?thesis by simp
      qed
    qed
  next
    case r
    show ?thesis
    proof (cases t)
      case Nil
      with r assms have "c \<in> set p" by (cases p) auto
      with assms show ?thesis by simp
    next
      case (Cons d t')
      with r have "y = t' @ p @ b" by simp
      then show ?thesis by (auto simp: contains_iff)
    qed
  qed
next
  assume "contains x p \<or> contains y p"
  then show "contains (x @ c # y) p"
  proof
    assume "contains x p"
    then obtain a b where "x = a @ p @ b" by (auto simp: contains_iff)
    then have "x @ c # y = a @ p @ (b @ c # y)" by simp
    then show ?thesis unfolding contains_iff by blast
  next
    assume "contains y p"
    then obtain a b where "y = a @ p @ b" by (auto simp: contains_iff)
    then have "x @ c # y = (x @ c # a) @ p @ b" by simp
    then show ?thesis unfolding contains_iff by blast
  qed
qed

lemma contains_Nil: "contains [] p \<longleftrightarrow> p = []"
  by simp

lemma contains_join:
  assumes "c \<notin> set p" and "p \<noteq> []"
  shows "contains (join [c] ls) p \<longleftrightarrow> list_ex (\<lambda>l. contains l p) ls"
proof (induction ls)
  case Nil
  then show ?case using assms by simp
next
  case (Cons x xs)
  show ?case
  proof (cases xs)
    case Nil
    then show ?thesis by simp
  next
    case (Cons y ys)
    with Cons.IH show ?thesis
      using contains_append_sep [OF assms, of x "join [c] (y # ys)"] by simp
  qed
qed

lemma str_nat_digits: "c \<in> set (str_nat n) \<Longrightarrow> 48 \<le> c \<and> c \<le> 57"
proof (induction n rule: str_nat.induct)
  case (1 n)
  show ?case
  proof (cases "n < 10")
    case True
    with 1(2) show ?thesis by (simp add: str_nat.simps [of n])
  next
    case False
    with 1 show ?thesis by (auto simp: str_nat.simps [of n])
  qed
qed

lemma digits_value_str_nat: "digits_value (str_nat n) = n"
proof (induction n rule: str_nat.induct)
  case (1 n)
  show ?case
  proof (cases "n < 10")
    case True
    then show ?thesis by (simp add: str_nat.simps [of n] digits_value_def)
  next
    case False
    with 1 have "digits_value (str_nat (n div 10)) = n div 10" by simp
    with False show ?thesis
      by (simp add: str_nat.simps [of n] digits_value_def)
  qed
qed

lemma str_nat_inj: "str_nat i = str_nat j \<Longrightarrow> i = j"
  by (metis digits_value_str_nat)

lemma sep_split: "c \<notin> set xs \<Longrightarrow> c \<notin> set ys \<Longrightarrow> xs @ c # a = ys @ c # b \<Longrightarrow> xs = ys"
proof (induction xs arbitrary: ys)
  case Nil
  then show ?case by (cases ys) simp_all
next
  case (Cons x xs)
  show ?case
  proof (cases ys)
    case Nil
    with Cons.prems show ?thesis by simp
  next
    case (Cons y ys')
    with Cons.prems have "x = y" "xs @ c # a = ys' @ c # b" "c \<notin> set xs" "c \<notin> set ys'"
      by simp_all
    with Cons.IH [of ys'] Cons show ?thesis by simp
  qed
qed

lemma entry_inj: "entry i l = entry j l' \<Longrightarrow> i = j"
proof -
  assume "entry i l = entry j l'"
  then have e: "str_nat i @ 58 # (32 # strip l) = str_nat j @ 58 # (32 # strip l')"
    by (simp add: entry_def u_def)
  have "58 \<notin> set (str_nat i)" "58 \<notin> set (str_nat j)"
    using str_nat_digits [of 58 i] str_nat_digits [of 58 j] by auto
  then have "str_nat i = str_nat j"
    using e by (rule sep_split)
  then show ?thesis by (rule str_nat_inj)
qed

lemma foldl_scan_setter:
  "init_functions (foldl (scan_setter alnum lines i line) f ss) = init_functions f
   \<and> unprotected_inits (foldl (scan_setter alnum lines i line) f ss) = unprotected_inits f
   \<and> unprotected_role_setters (foldl (scan_setter alnum lines i line) f ss) =
       unprotected_role_setters f @
       map (\<lambda>s. entry i line)
         (filter (\<lambda>s. re_search (call_of alnum s) line
                      \<and> \<not> contains (lookahead lines i) (u ''onlyOwner'')) ss)"
  by (induction ss arbitrary: f) (simp_all add: scan_setter_def)

lemma scan_line_fields:
  "init_functions (scan_line alnum lines i line f) =
     init_functions f @ (if is_init alnum line then [entry i line] else [])"
  "unprotected_inits (scan_line alnum lines i line f) =
     unprotected_inits f @
     (if is_init alnum line \<and> \<not> contains line (u ''onlyOwner'')
         \<and> \<not> contains (lookahead lines i) (u ''onlyOwner'')
      then [entry i line] else [])"
  "unprotected_role_setters (scan_line alnum lines i line f) =
     unprotected_role_setters f @
     map (\<lambda>s. entry i line)
       (filter (\<lambda>s. re_search (call_of alnum s) line
                    \<and> \<not> contains (lookahead lines i) (u ''onlyOwner'')) ROLE_SETTERS)"
  by (simp_all add: scan_line_def Let_def foldl_scan_setter)

lemma grep_lines_fields:
  "init_functions (grep_lines alnum lines i ls f) =
     init_functions f @
     map (\<lambda>(i, l). entry i l) (filter (\<lambda>(i, l). is_init alnum l) (enumerate i ls))"
  "unprotected_inits (grep_lines alnum lines i ls f) =
     unprotected_inits f @
     map (\<lambda>(i, l). entry i l)
       (filter (\<lambda>(i, l). is_init alnum l \<and> \<not> contains l (u ''onlyOwner'')
                  \<and> \<not> contains (lookahead lines i) (u ''onlyOwner'')) (enumerate i ls))"
  "unprotected_role_setters (grep_lines alnum lines i ls f) =
     unprotected_role_setters f @
     concat (map (\<lambda>(i, l). map (\<lambda>s. entry i l)
       (filter (\<lambda>s. re_search (call_of alnum s) l
                    \<and> \<not> contains (lookahead lines i) (u ''onlyOwner'')) ROLE_SETTERS))
       (enumerate i ls))"
  by (induction ls arbitrary: i f) (simp_all add: scan_line_fields)

lemma window_guard:
  "contains (join [10] ws) (u ''onlyOwner'') \<longleftrightarrow> list_ex (\<lambda>l. contains l (u ''onlyOwner'')) ws"
  by (rule contains_join) (simp_all add: u_def)

lemma lookahead_guard:
  "contains (lookahead lines (Suc k)) (u ''onlyOwner'') \<longleftrightarrow> guard_in_window lines k"
  by (simp add: lookahead_def guard_in_window_def window_guard)

lemma window_nth:
  assumes "n < length (take 4 (drop k lines))"
  shows "k + n < length lines" and "n < 4" and "take 4 (drop k lines) ! n = lines ! (k + n)"
proof -
  from assms have a: "n < length lines - k" and b: "n < 4"
    by simp_all
  from a show "k + n < length lines" by linarith
  from b show "n < 4" .
  from a have "k \<le> length lines" by linarith
  with b show "take 4 (drop k lines) ! n = lines ! (k + n)"
    by (simp add: nth_drop)
qed

lemma window_index:
  assumes "k \<le> j" and "j < k + 4" and "j < length lines"
  shows "lines ! j \<in> set (take 4 (drop k lines))"
proof -
  from assms have "j - k < length lines - k" and "j - k < 4"
    by linarith+
  then have a: "j - k < length (take 4 (drop k lines))"
    by simp
  from assms(1) have "k + (j - k) = j"
    by linarith
  with window_nth(3) [OF a] have e: "take 4 (drop k lines) ! (j - k) = lines ! j"
    by (simp only:)
  from nth_mem [OF a] show ?thesis
    by (simp only: e)
qed

lemma guard_in_window_iff:
  "guard_in_window lines k \<longleftrightarrow>
     (\<exists>j. k \<le> j \<and> j < k + 4 \<and> j < length lines \<and> contains (lines ! j) (u ''onlyOwner''))"
proof
  assume "guard_in_window lines k"
  then obtain l where l: "l \<in> set (take 4 (drop k lines))" "contains l (u ''onlyOwner'')"
    unfolding guard_in_window_def list_ex_iff by blast
  from iffD1 [OF in_set_conv_nth l(1)]
  obtain n where n: "n < length (take 4 (drop k lines))" "take 4 (drop k lines) ! n = l"
    by blast
  from window_nth [OF n(1)] n(2) l(2)
  have "k \<le> k + n \<and> k + n < k + 4 \<and> k + n < length lines
      \<and> contains (lines ! (k + n)) (u ''onlyOwner'')" by simp
  then show "\<exists>j. k \<le> j \<and> j < k + 4 \<and> j < length lines \<and> contains (lines ! j) (u ''onlyOwner'')"
    by (rule exI [where x = "k + n"])
next
  assume "\<exists>j. k \<le> j \<and> j < k + 4 \<and> j < length lines \<and> contains (lines ! j) (u ''onlyOwner'')"
  then obtain j where j: "k \<le> j" "j < k + 4" "j < length lines"
      "contains (lines ! j) (u ''onlyOwner'')"
    by blast
  from window_index [OF j(1,2,3)] j(4) show "guard_in_window lines k"
    unfolding guard_in_window_def list_ex_iff by blast
qed

lemma enumerate_member: "k < length ls \<Longrightarrow> (Suc k, ls ! k) \<in> set (enumerate 1 ls)"
  by (simp add: in_set_enumerate_eq)

lemma enumerate_elem:
  assumes "(i, l) \<in> set (enumerate 1 ls)"
  shows "\<exists>k. i = Suc k \<and> k < length ls \<and> l = ls ! k"
proof -
  from assms have "1 \<le> i" "i < length ls + 1" "l = ls ! (i - 1)"
    by (simp_all add: in_set_enumerate_eq)
  then have "i = Suc (i - 1) \<and> i - 1 < length ls \<and> l = ls ! (i - 1)"
    by simp
  then show ?thesis
    by (rule exI [where x = "i - 1"])
qed

lemma entry_member:
  assumes "k < length ls"
  shows "entry (Suc k) (ls ! k) \<in> set (map (\<lambda>(i, l). entry i l) (filter P (enumerate 1 ls)))
           \<longleftrightarrow> P (Suc k, ls ! k)"
proof
  assume "entry (Suc k) (ls ! k) \<in> set (map (\<lambda>(i, l). entry i l) (filter P (enumerate 1 ls)))"
  then have "entry (Suc k) (ls ! k) \<in> (\<lambda>(i, l). entry i l) ` set (filter P (enumerate 1 ls))"
    by (simp only: set_map)
  then obtain x where x: "x \<in> set (filter P (enumerate 1 ls))"
      "entry (Suc k) (ls ! k) = (\<lambda>(i, l). entry i l) x"
    by (rule imageE)
  obtain i l where xi: "x = (i, l)"
    by (cases x)
  from x(1) have il: "(i, l) \<in> set (enumerate 1 ls)" "P (i, l)"
    by (simp_all only: xi set_filter mem_Collect_eq)
  from x(2) have e: "entry (Suc k) (ls ! k) = entry i l"
    by (simp only: xi prod.case)
  from entry_inj [OF e] have "i = Suc k" by (rule sym)
  moreover from enumerate_elem [OF il(1)] obtain k' where "i = Suc k'" "l = ls ! k'"
    by blast
  ultimately have "(i, l) = (Suc k, ls ! k)" by simp
  with il(2) show "P (Suc k, ls ! k)" by (simp only:)
next
  assume "P (Suc k, ls ! k)"
  with enumerate_member [OF assms] have "(Suc k, ls ! k) \<in> set (filter P (enumerate 1 ls))"
    by (simp only: set_filter mem_Collect_eq simp_thms)
  then have "(\<lambda>(i, l). entry i l) (Suc k, ls ! k) \<in> (\<lambda>(i, l). entry i l) ` set (filter P (enumerate 1 ls))"
    by (rule imageI)
  then show "entry (Suc k) (ls ! k) \<in> set (map (\<lambda>(i, l). entry i l) (filter P (enumerate 1 ls)))"
    by (simp only: set_map prod.case)
qed

lemma guard_in_own_line:
  assumes "k < length lines" and "contains (lines ! k) (u ''onlyOwner'')"
  shows "guard_in_window lines k"
proof -
  from assms have "k \<le> k \<and> k < k + 4 \<and> k < length lines \<and> contains (lines ! k) (u ''onlyOwner'')"
    by simp
  then have "\<exists>j. k \<le> j \<and> j < k + 4 \<and> j < length lines \<and> contains (lines ! j) (u ''onlyOwner'')"
    by (rule exI [where x = k])
  then show ?thesis by (simp only: guard_in_window_iff)
qed

lemma guard_in_later_line:
  assumes "k + d < length lines" and "d < 4" and "contains (lines ! (k + d)) (u ''onlyOwner'')"
  shows "guard_in_window lines k"
proof -
  from assms have "k \<le> k + d \<and> k + d < k + 4 \<and> k + d < length lines
      \<and> contains (lines ! (k + d)) (u ''onlyOwner'')"
    by simp
  then have "\<exists>j. k \<le> j \<and> j < k + 4 \<and> j < length lines \<and> contains (lines ! j) (u ''onlyOwner'')"
    by (rule exI [where x = "k + d"])
  then show ?thesis by (simp only: guard_in_window_iff)
qed

lemma unprotected_filter:
  "filter (\<lambda>(i, l). is_init alnum l \<and> \<not> contains l (u ''onlyOwner'')
              \<and> \<not> contains (lookahead lines i) (u ''onlyOwner'')) (enumerate 1 lines)
   = filter (\<lambda>(i, l). is_init alnum l \<and> \<not> guard_in_window lines (i - 1)) (enumerate 1 lines)"
proof (rule filter_cong [OF refl])
  fix x
  assume m: "x \<in> set (enumerate 1 lines)"
  obtain i l where x: "x = (i, l)"
    by (cases x)
  from m have "(i, l) \<in> set (enumerate 1 lines)"
    by (simp only: x)
  from enumerate_elem [OF this] obtain k where k: "i = Suc k" "k < length lines" "l = lines ! k"
    by blast
  have a: "contains (lookahead lines (Suc k)) (u ''onlyOwner'') = guard_in_window lines k"
    by (rule lookahead_guard)
  have b: "contains (lines ! k) (u ''onlyOwner'') \<Longrightarrow> guard_in_window lines k"
    by (rule guard_in_own_line [OF k(2)])
  show "(case x of (i, l) \<Rightarrow> is_init alnum l \<and> \<not> contains l (u ''onlyOwner'')
              \<and> \<not> contains (lookahead lines i) (u ''onlyOwner''))
      = (case x of (i, l) \<Rightarrow> is_init alnum l \<and> \<not> guard_in_window lines (i - 1))"
    unfolding x k prod.case a diff_Suc_1 using b by blast
qed

lemma setters_filter:
  "map (\<lambda>(i, l). map (\<lambda>s. entry i l)
       (filter (\<lambda>s. re_search (call_of alnum s) l
                    \<and> \<not> contains (lookahead lines i) (u ''onlyOwner'')) ROLE_SETTERS))
       (enumerate 1 lines)
   = map (\<lambda>(i, l). map (\<lambda>s. entry i l)
       (filter (\<lambda>s. re_search (call_of alnum s) l
                    \<and> \<not> guard_in_window lines (i - 1)) ROLE_SETTERS))
       (enumerate 1 lines)"
proof (rule map_cong [OF refl])
  fix x
  assume m: "x \<in> set (enumerate 1 lines)"
  obtain i l where x: "x = (i, l)"
    by (cases x)
  from m have "(i, l) \<in> set (enumerate 1 lines)"
    by (simp only: x)
  from enumerate_elem [OF this] obtain k where k: "i = Suc k" "k < length lines" "l = lines ! k"
    by blast
  have a: "contains (lookahead lines (Suc k)) (u ''onlyOwner'') = guard_in_window lines k"
    by (rule lookahead_guard)
  show "(case x of (i, l) \<Rightarrow> map (\<lambda>s. entry i l)
       (filter (\<lambda>s. re_search (call_of alnum s) l
                    \<and> \<not> contains (lookahead lines i) (u ''onlyOwner'')) ROLE_SETTERS))
     = (case x of (i, l) \<Rightarrow> map (\<lambda>s. entry i l)
       (filter (\<lambda>s. re_search (call_of alnum s) l
                    \<and> \<not> guard_in_window lines (i - 1)) ROLE_SETTERS))"
    unfolding x k prod.case a diff_Suc_1 by (rule refl)
qed

lemma grep_patterns_fields:
  "init_functions (grep_patterns alnum text) =
     map (\<lambda>(i, l). entry i l)
       (filter (\<lambda>(i, l). is_init alnum l) (enumerate 1 (splitlines text)))"
  "unprotected_inits (grep_patterns alnum text) =
     map (\<lambda>(i, l). entry i l)
       (filter (\<lambda>(i, l). is_init alnum l \<and> \<not> guard_in_window (splitlines text) (i - 1))
          (enumerate 1 (splitlines text)))"
  "unprotected_role_setters (grep_patterns alnum text) =
     concat (map (\<lambda>(i, l). map (\<lambda>s. entry i l)
       (filter (\<lambda>s. re_search (call_of alnum s) l
                    \<and> \<not> guard_in_window (splitlines text) (i - 1)) ROLE_SETTERS))
       (enumerate 1 (splitlines text)))"
  unfolding grep_patterns_def Let_def grep_lines_fields unprotected_filter
      setters_filter findings.select_convs append_Nil
  by (rule refl)+

lemma setter_entry_member:
  assumes "k < length ls"
  shows "entry (Suc k) (ls ! k)
           \<in> set (concat (map (\<lambda>(i, l). map (\<lambda>s. entry i l) (filter (Q i l) ss)) (enumerate 1 ls)))
         \<longleftrightarrow> (\<exists>s\<in>set ss. Q (Suc k) (ls ! k) s)"
proof
  assume "entry (Suc k) (ls ! k)
           \<in> set (concat (map (\<lambda>(i, l). map (\<lambda>s. entry i l) (filter (Q i l) ss)) (enumerate 1 ls)))"
  then obtain x where x: "x \<in> set (enumerate 1 ls)"
      "entry (Suc k) (ls ! k) \<in> set ((\<lambda>(i, l). map (\<lambda>s. entry i l) (filter (Q i l) ss)) x)"
    unfolding set_concat set_map by blast
  obtain i l where xi: "x = (i, l)"
    by (cases x)
  from x(2) obtain s where s: "s \<in> set ss" "Q i l s" "entry (Suc k) (ls ! k) = entry i l"
    unfolding xi prod.case set_map set_filter by blast
  from entry_inj [OF s(3)] have "i = Suc k" by (rule sym)
  moreover from x(1) enumerate_elem [of i l ls] obtain k' where "i = Suc k'" "l = ls ! k'"
    unfolding xi by blast
  ultimately have "i = Suc k" "l = ls ! k" by simp_all
  with s(1,2) show "\<exists>s\<in>set ss. Q (Suc k) (ls ! k) s"
    by blast
next
  assume "\<exists>s\<in>set ss. Q (Suc k) (ls ! k) s"
  then obtain s where s: "s \<in> set ss" "Q (Suc k) (ls ! k) s"
    by blast
  then have "entry (Suc k) (ls ! k)
      \<in> set ((\<lambda>(i, l). map (\<lambda>s. entry i l) (filter (Q i l) ss)) (Suc k, ls ! k))"
    unfolding prod.case set_map set_filter by blast
  with enumerate_member [OF assms]
  show "entry (Suc k) (ls ! k)
           \<in> set (concat (map (\<lambda>(i, l). map (\<lambda>s. entry i l) (filter (Q i l) ss)) (enumerate 1 ls)))"
    unfolding set_concat set_map by blast
qed

lemma init_entry_member:
  assumes "k < length (splitlines text)"
  shows "entry (Suc k) (splitlines text ! k) \<in> set (init_functions (grep_patterns alnum text))
           \<longleftrightarrow> is_init alnum (splitlines text ! k)"
    and "entry (Suc k) (splitlines text ! k) \<in> set (unprotected_inits (grep_patterns alnum text))
           \<longleftrightarrow> is_init alnum (splitlines text ! k) \<and> \<not> guard_in_window (splitlines text) k"
  unfolding grep_patterns_fields entry_member [OF assms] prod.case diff_Suc_1
  by (rule refl)+

lemma role_entry_member:
  assumes "k < length (splitlines text)"
  shows "entry (Suc k) (splitlines text ! k)
           \<in> set (unprotected_role_setters (grep_patterns alnum text))
         \<longleftrightarrow> calls_setter alnum (splitlines text ! k) \<and> \<not> guard_in_window (splitlines text) k"
proof -
  have "entry (Suc k) (splitlines text ! k)
           \<in> set (unprotected_role_setters (grep_patterns alnum text))
     \<longleftrightarrow> (\<exists>s\<in>set ROLE_SETTERS. re_search (call_of alnum s) (splitlines text ! k)
            \<and> \<not> guard_in_window (splitlines text) (Suc k - 1))"
    unfolding grep_patterns_fields
    by (rule setter_entry_member
        [OF assms, of "\<lambda>i l s. re_search (call_of alnum s) l
                         \<and> \<not> guard_in_window (splitlines text) (i - 1)" ROLE_SETTERS])
  then show ?thesis
    unfolding calls_setter_def list_ex_iff diff_Suc_1 by blast
qed

text \<open>
  Claim C2.  Let \<open>splitlines text\<close> be the lines of the input.  \<open>init_functions\<close> holds, in
  line order, the entry \<^verbatim>\<open>L{i}: {trimmed line}\<close> of every line \<open>i\<close> (counted from 1) that
  matches \<^verbatim>\<open>\bfunction\s+initialize\b\<close> or contains \<^verbatim>\<open>initializeV2_1\<close> or
  \<^verbatim>\<open>initializeV2(\<close>, and \<open>unprotected_inits\<close> the entries of those among them whose
  window (the line and the three lines after it, fewer at the end of the text) has no line
  that contains \<^verbatim>\<open>onlyOwner\<close>.  So the entry of a matched line is in \<open>init_functions\<close>,
  and it is in \<open>unprotected_inits\<close> if and only if the guard is absent from its window; a
  matched line whose next line contains the guard is not in \<open>unprotected_inits\<close>.
\<close>

theorem init_functions_and_guard_window:
  "init_functions (grep_patterns alnum text) =
     map (\<lambda>(i, l). entry i l)
       (filter (\<lambda>(i, l). is_init alnum l) (enumerate 1 (splitlines text)))
   \<and> unprotected_inits (grep_patterns alnum text) =
     map (\<lambda>(i, l). entry i l)
       (filter (\<lambda>(i, l). is_init alnum l \<and> \<not> guard_in_window (splitlines text) (i - 1))
          (enumerate 1 (splitlines text)))
   \<and> (\<forall>k < length (splitlines text). is_init alnum (splitlines text ! k) \<longrightarrow>
         entry (Suc k) (splitlines text ! k) \<in> set (init_functions (grep_patterns alnum text))
       \<and> (entry (Suc k) (splitlines text ! k) \<in> set (unprotected_inits (grep_patterns alnum text))
            \<longleftrightarrow> \<not> guard_in_window (splitlines text) k)
       \<and> (Suc k < length (splitlines text)
            \<and> contains (splitlines text ! Suc k) (u ''onlyOwner'') \<longrightarrow>
          entry (Suc k) (splitlines text ! k)
            \<notin> set (unprotected_inits (grep_patterns alnum text))))"
proof -
  have next_line: "guard_in_window (splitlines text) k"
    if "Suc k < length (splitlines text)" "contains (splitlines text ! Suc k) (u ''onlyOwner'')"
    for k
    using guard_in_later_line [of k 1 "splitlines text"] that by simp
  have lines: "\<forall>k < length (splitlines text). is_init alnum (splitlines text ! k) \<longrightarrow>
         entry (Suc k) (splitlines text ! k) \<in> set (init_functions (grep_patterns alnum text))
       \<and> (entry (Suc k) (splitlines text ! k) \<in> set (unprotected_inits (grep_patterns alnum text))
            \<longleftrightarrow> \<not> guard_in_window (splitlines text) k)
       \<and> (Suc k < length (splitlines text)
            \<and> contains (splitlines text ! Suc k) (u ''onlyOwner'') \<longrightarrow>
          entry (Suc k) (splitlines text ! k)
            \<notin> set (unprotected_inits (grep_patterns alnum text)))"
    using next_line by (simp add: init_entry_member)
  show ?thesis
    by (rule conjI [OF grep_patterns_fields(1) conjI [OF grep_patterns_fields(2) lines]])
qed

text \<open>
  Claim C3.  \<open>unprotected_role_setters\<close> holds, in line order and once for each of the five
  names that matches, the entry of every line that has a call-shaped occurrence of the name
  (\<^verbatim>\<open>\b{name}\s*\(\<close>) and no line containing \<^verbatim>\<open>onlyOwner\<close> in its four-line window.
  So for a line with such an occurrence the entry is in the list if and only if the guard is
  absent from the window; a guard on the fourth line of the window keeps the entry out, and
  a guard on the fifth line (the first after the window) does not.
\<close>

theorem role_setters_and_guard_window:
  "unprotected_role_setters (grep_patterns alnum text) =
     concat (map (\<lambda>(i, l). map (\<lambda>s. entry i l)
       (filter (\<lambda>s. re_search (call_of alnum s) l
                    \<and> \<not> guard_in_window (splitlines text) (i - 1)) ROLE_SETTERS))
       (enumerate 1 (splitlines text)))
   \<and> ROLE_SETTERS = [u ''updateOracle'', u ''updateBlacklister'', u ''updatePauser'',
                      u ''updateMasterMinter'', u ''updateRescuer'']
   \<and> (\<forall>k < length (splitlines text). \<forall>s \<in> set ROLE_SETTERS.
         re_search (call_of alnum s) (splitlines text ! k) \<longrightarrow>
         (entry (Suc k) (splitlines text ! k)
            \<in> set (unprotected_role_setters (grep_patterns alnum text))
            \<longleftrightarrow> \<not> guard_in_window (splitlines text) k)
       \<and> (k + 3 < length (splitlines text)
            \<and> contains (splitlines text ! (k + 3)) (u ''onlyOwner'') \<longrightarrow>
          entry (Suc k) (splitlines text ! k)
            \<notin> set (unprotected_role_setters (grep_patterns alnum text)))
       \<and> (\<not> guard_in_window (splitlines text) k \<and> k + 4 < length (splitlines text)
            \<and> contains (splitlines text ! (k + 4)) (u ''onlyOwner'') \<longrightarrow>
          entry (Suc k) (splitlines text ! k)
            \<in> set (unprotected_role_setters (grep_patterns alnum text))))"
proof -
  have line4: "guard_in_window (splitlines text) k"
    if "k + 3 < length (splitlines text)" "contains (splitlines text ! (k + 3)) (u ''onlyOwner'')"
    for k
    using guard_in_later_line [of k 3 "splitlines text"] that by simp
  have calls: "calls_setter alnum l" if "s \<in> set ROLE_SETTERS" "re_search (call_of alnum s) l"
    for s l
    using that unfolding calls_setter_def list_ex_iff by blast
  have lines: "\<forall>k < length (splitlines text). \<forall>s \<in> set ROLE_SETTERS.
         re_search (call_of alnum s) (splitlines text ! k) \<longrightarrow>
         (entry (Suc k) (splitlines text ! k)
            \<in> set (unprotected_role_setters (grep_patterns alnum text))
            \<longleftrightarrow> \<not> guard_in_window (splitlines text) k)
       \<and> (k + 3 < length (splitlines text)
            \<and> contains (splitlines text ! (k + 3)) (u ''onlyOwner'') \<longrightarrow>
          entry (Suc k) (splitlines text ! k)
            \<notin> set (unprotected_role_setters (grep_patterns alnum text)))
       \<and> (\<not> guard_in_window (splitlines text) k \<and> k + 4 < length (splitlines text)
            \<and> contains (splitlines text ! (k + 4)) (u ''onlyOwner'') \<longrightarrow>
          entry (Suc k) (splitlines text ! k)
            \<in> set (unprotected_role_setters (grep_patterns alnum text)))"
    using line4 calls by (simp add: role_entry_member)
  show ?thesis
    by (rule conjI [OF grep_patterns_fields(3) conjI [OF ROLE_SETTERS_def lines]])
qed

lemmas text_eval = u_def splitlines_def is_linebreak_def is_space_def is_word_def strip_def
  startswith_def entry_def is_init_def re_search_def function_initialize_def call_of_def
  boundary_before_def boundary_after_def lookahead_def guard_in_window_def calls_setter_def
  ROLE_SETTERS_def scan_line_def scan_setter_def grep_patterns_def Let_def

lemma str_nat_small: "str_nat 1 = [49]" "str_nat 2 = [50]" "str_nat (Suc 0) = [49]"
  "str_nat (Suc (Suc 0)) = [50]"
  by (simp_all add: str_nat.simps)

lemma unguarded_lines:
  "splitlines unguarded_init_text =
     [u ''contract C {'', u ''  function initialize() public {'', u ''    owner = msg.sender;'',
      u ''  }'', u ''}'']"
  by (simp add: unguarded_init_text_def text_eval)

lemma init_line_matches: "is_init (\<lambda>c. False) (u ''  function initialize() public {'')"
  by (simp add: text_eval)

lemma unguarded_window: "\<not> guard_in_window (splitlines unguarded_init_text) 1"
  by (simp add: unguarded_lines) (simp add: text_eval)

lemma unguarded_entry: "entry 2 (u ''  function initialize() public {'') = u ''L2: function initialize() public {''"
  by (simp add: text_eval str_nat_small)

lemma unguarded_findings: "grep_patterns (\<lambda>c. False) unguarded_init_text =
   \<lparr>init_functions = [u ''L2: function initialize() public {''],
    unprotected_inits = [u ''L2: function initialize() public {''],
    unprotected_role_setters = [], internal_transfer_calls = []\<rparr>"
  by (simp add: grep_patterns_def unguarded_lines) (simp add: text_eval str_nat_small)

lemma guarded_lines:
  "splitlines guarded_init_text =
     [u ''  function initialize() public'', u ''    onlyOwner {'', u ''  }'']"
  by (simp add: guarded_init_text_def text_eval)

lemma guarded_findings: "grep_patterns (\<lambda>c. False) guarded_init_text =
   \<lparr>init_functions = [u ''L1: function initialize() public''],
    unprotected_inits = [],
    unprotected_role_setters = [], internal_transfer_calls = []\<rparr>"
  by (simp add: grep_patterns_def guarded_lines) (simp add: text_eval str_nat_small)

lemma line4_lines:
  "splitlines guard_line4_text = [u ''updatePauser(p);'', u ''a'', u ''b'', u ''// onlyOwner'', u ''c'']"
  by (simp add: guard_line4_text_def text_eval)

lemma line5_lines:
  "splitlines guard_line5_text = [u ''updatePauser(p);'', u ''a'', u ''b'', u ''c'', u ''// onlyOwner'']"
  by (simp add: guard_line5_text_def text_eval)

lemma guard_line4_findings: "grep_patterns (\<lambda>c. False) guard_line4_text =
   \<lparr>init_functions = [], unprotected_inits = [],
    unprotected_role_setters = [], internal_transfer_calls = []\<rparr>"
  by (simp add: grep_patterns_def line4_lines) (simp add: text_eval str_nat_small)

lemma guard_line5_findings: "grep_patterns (\<lambda>c. False) guard_line5_text =
   \<lparr>init_functions = [], unprotected_inits = [],
    unprotected_role_setters = [u ''L1: updatePauser(p);''], internal_transfer_calls = []\<rparr>"
  by (simp add: grep_patterns_def line5_lines) (simp add: text_eval str_nat_small)

theorem init_functions_and_guard_window_witness:
  "length (splitlines unguarded_init_text) = 5
   \<and> splitlines unguarded_init_text ! 1 = u ''  function initialize() public {''
   \<and> is_init (\<lambda>c. False) (splitlines unguarded_init_text ! 1)
   \<and> \<not> guard_in_window (splitlines unguarded_init_text) 1
   \<and> entry 2 (splitlines unguarded_init_text ! 1) = u ''L2: function initialize() public {''
   \<and> entry 2 (splitlines unguarded_init_text ! 1)
        \<in> set (unprotected_inits (grep_patterns (\<lambda>c. False) unguarded_init_text))
   \<and> grep_patterns (\<lambda>c. False) unguarded_init_text =
        \<lparr>init_functions = [u ''L2: function initialize() public {''],
         unprotected_inits = [u ''L2: function initialize() public {''],
         unprotected_role_setters = [], internal_transfer_calls = []\<rparr>
   \<and> length (splitlines guarded_init_text) = 3
   \<and> is_init (\<lambda>c. False) (splitlines guarded_init_text ! 0)
   \<and> contains (splitlines guarded_init_text ! 1) (u ''onlyOwner'')
   \<and> entry 1 (splitlines guarded_init_text ! 0)
        \<notin> set (unprotected_inits (grep_patterns (\<lambda>c. False) guarded_init_text))
   \<and> grep_patterns (\<lambda>c. False) guarded_init_text =
        \<lparr>init_functions = [u ''L1: function initialize() public''],
         unprotected_inits = [],
         unprotected_role_setters = [], internal_transfer_calls = []\<rparr>"
proof -
  have g: "(0::nat) < length (splitlines guarded_init_text)"
      "Suc 0 < length (splitlines guarded_init_text)"
      "is_init (\<lambda>c. False) (splitlines guarded_init_text ! 0)"
      "contains (splitlines guarded_init_text ! Suc 0) (u ''onlyOwner'')"
    by (simp_all add: guarded_lines) (simp_all add: text_eval)
  have n: "(1::nat) < length (splitlines unguarded_init_text)"
      "is_init (\<lambda>c. False) (splitlines unguarded_init_text ! 1)"
    by (simp_all add: unguarded_lines init_line_matches)
  from init_functions_and_guard_window [of "\<lambda>c. False" guarded_init_text,
      THEN conjunct2, THEN conjunct2, rule_format, OF g(1) g(3),
      THEN conjunct2, THEN conjunct2, rule_format, OF conjI [OF g(2) g(4)]]
  have absent: "entry (Suc 0) (splitlines guarded_init_text ! 0)
        \<notin> set (unprotected_inits (grep_patterns (\<lambda>c. False) guarded_init_text))" .
  from init_functions_and_guard_window [of "\<lambda>c. False" unguarded_init_text,
      THEN conjunct2, THEN conjunct2, rule_format, OF n(1) n(2),
      THEN conjunct2, THEN conjunct1] unguarded_window
  have present: "entry (Suc 1) (splitlines unguarded_init_text ! 1)
        \<in> set (unprotected_inits (grep_patterns (\<lambda>c. False) unguarded_init_text))"
    by simp
  have e: "entry 2 (splitlines unguarded_init_text ! 1) = u ''L2: function initialize() public {''"
    by (simp add: unguarded_lines unguarded_entry)
  show ?thesis
    using absent present g n unguarded_window e unguarded_findings guarded_findings
    by (simp add: unguarded_lines guarded_lines)
qed

theorem role_setters_and_guard_window_witness:
  "length (splitlines guard_line4_text) = 5
   \<and> re_search (call_of (\<lambda>c. False) (u ''updatePauser'')) (splitlines guard_line4_text ! 0)
   \<and> contains (splitlines guard_line4_text ! 3) (u ''onlyOwner'')
   \<and> entry 1 (splitlines guard_line4_text ! 0)
        \<notin> set (unprotected_role_setters (grep_patterns (\<lambda>c. False) guard_line4_text))
   \<and> unprotected_role_setters (grep_patterns (\<lambda>c. False) guard_line4_text) = []
   \<and> length (splitlines guard_line5_text) = 5
   \<and> re_search (call_of (\<lambda>c. False) (u ''updatePauser'')) (splitlines guard_line5_text ! 0)
   \<and> \<not> guard_in_window (splitlines guard_line5_text) 0
   \<and> contains (splitlines guard_line5_text ! 4) (u ''onlyOwner'')
   \<and> entry 1 (splitlines guard_line5_text ! 0)
        \<in> set (unprotected_role_setters (grep_patterns (\<lambda>c. False) guard_line5_text))
   \<and> unprotected_role_setters (grep_patterns (\<lambda>c. False) guard_line5_text)
        = [u ''L1: updatePauser(p);'']"
proof -
  have s: "u ''updatePauser'' \<in> set ROLE_SETTERS"
    by (simp add: ROLE_SETTERS_def)
  have f4: "(0::nat) < length (splitlines guard_line4_text)"
      "re_search (call_of (\<lambda>c. False) (u ''updatePauser'')) (splitlines guard_line4_text ! 0)"
      "0 + 3 < length (splitlines guard_line4_text)"
      "contains (splitlines guard_line4_text ! (0 + 3)) (u ''onlyOwner'')"
    by (simp_all add: line4_lines) (simp_all add: text_eval)
  have f5: "(0::nat) < length (splitlines guard_line5_text)"
      "re_search (call_of (\<lambda>c. False) (u ''updatePauser'')) (splitlines guard_line5_text ! 0)"
      "\<not> guard_in_window (splitlines guard_line5_text) 0"
      "0 + 4 < length (splitlines guard_line5_text)"
      "contains (splitlines guard_line5_text ! (0 + 4)) (u ''onlyOwner'')"
    by (simp_all add: line5_lines) (simp_all add: text_eval)
  note t4 = role_setters_and_guard_window [of "\<lambda>c. False" guard_line4_text,
      THEN conjunct2, THEN conjunct2, rule_format, OF f4(1) s f4(2)]
  note t5 = role_setters_and_guard_window [of "\<lambda>c. False" guard_line5_text,
      THEN conjunct2, THEN conjunct2, rule_format, OF f5(1) s f5(2)]
  from t4 [THEN conjunct2, THEN conjunct1, rule_format, OF conjI [OF f4(3) f4(4)]]
  have absent: "entry (Suc 0) (splitlines guard_line4_text ! 0)
        \<notin> set (unprotected_role_setters (grep_patterns (\<lambda>c. False) guard_line4_text))" .
  from t5 [THEN conjunct2, THEN conjunct2, rule_format, OF conjI [OF f5(3) conjI [OF f5(4) f5(5)]]]
  have present: "entry (Suc 0) (splitlines guard_line5_text ! 0)
        \<in> set (unprotected_role_setters (grep_patterns (\<lambda>c. False) guard_line5_text))" .
  show ?thesis
    using absent present f4 f5
    by (simp add: guard_line4_findings guard_line5_findings line4_lines line5_lines)
qed


section \<open>Properties of json.loads and expand_sources\<close>

lemmas json_eval = json_loads_def tokenize.simps scanstring.simps cons_token_def consumed_def
  is_json_ws_def is_digit_def int_len_def frac_len_def exp_len_def number_len_def hexval_def
  hex4_def simple_escape_def low_surrogate_after_def advance_def put_def start_value_def
  start_key_def close_array_def close_object_def startswith_def u_def Let_def

text \<open>The decoder on some texts: a repeated key keeps its place and takes the last value,
  a trailing comma, a leading zero and text after the value are refused, and a pair of
  surrogate escapes (here \<^verbatim>\<open>"\ud83d\ude00"\<close>) is one character.\<close>

lemma decoder_examples:
  \<open>json_loads (u ''{"a": 1, "b": [true, null], "a": -2.5e3}'')
     = Some (JObj [(u ''a'', JNum (u ''-2.5e3'')), (u ''b'', JArr [JBool True, JNull])])\<close>
  \<open>json_loads (u ''[1,]'') = None\<close>
  \<open>json_loads (u ''01'') = None\<close>
  \<open>json_loads (u ''{} {}'') = None\<close>
  \<open>json_loads (u '' "a" '') = Some (JStr (u ''a''))\<close>
  \<open>json_loads [34, 92, 117, 100, 56, 51, 100, 92, 117, 100, 101, 48, 48, 34]
     = Some (JStr [128512])\<close>
  by (simp_all add: json_eval)

lemma two_sources_parse:
  "json_loads two_sources_payload =
     Some (JObj [(u ''sources'',
        JObj [(u ''A.sol'', JObj [(u ''content'', JStr (u ''X''))]),
              (u ''B.sol'', JObj [(u ''content'', JStr (u ''Y''))])])])"
  by (simp add: two_sources_payload_def json_eval)

lemma run_None: "run None ts = None"
  by (cases ts) simp_all

lemma tokenize_double_brace:
  "tokenize (123 # 123 # rest) = cons_token TLBrace (cons_token TLBrace (tokenize rest))"
  by (simp add: tokenize.simps(2) [of 123] is_json_ws_def)

lemma json_loads_double_brace: "json_loads (123 # 123 # rest) = None"
proof (cases "tokenize rest")
  case None
  then show ?thesis
    by (simp add: json_loads_def tokenize_double_brace cons_token_def)
next
  case (Some ts)
  then show ?thesis
    by (simp add: json_loads_def tokenize_double_brace cons_token_def advance_def start_value_def
        start_key_def run_None)
qed

lemma dropWhile_id: "xs \<noteq> [] \<Longrightarrow> \<not> P (hd xs) \<Longrightarrow> dropWhile P xs = xs"
  by (cases xs) simp_all

lemma strip_id:
  assumes "s \<noteq> []" and "\<not> is_space (hd s)" and "\<not> is_space (last s)"
  shows "strip s = s"
proof -
  have "dropWhile is_space s = s"
    using assms(1,2) by (rule dropWhile_id)
  moreover have "dropWhile is_space (rev s) = rev s"
    using assms(1,3) by (intro dropWhile_id) (simp_all add: hd_rev)
  ultimately show ?thesis
    by (simp add: strip_def)
qed

lemma try_json_Nil: "try_json [] = None"
  by (simp add: try_json_def strip_def startswith_def u_def)

lemma try_json_parsed: "json_loads p = Some j \<Longrightarrow> p \<noteq> [] \<Longrightarrow> try_json p = Some j"
  by (simp add: try_json_def)

lemma json_loads_Nil: "json_loads [] = None"
  by (simp add: json_loads_def tokenize.simps)

lemma try_json_wrapped:
  assumes "json_loads p = Some j" and "startswith p [123]" and "endswith p [125]"
  shows "try_json ([123] @ p @ [125]) = Some j"
proof -
  from assms(1) have ne: "p \<noteq> []"
    using json_loads_Nil by auto
  from assms(2) ne obtain p' where p: "p = 123 # p'"
    by (cases p) (simp_all add: startswith_def)
  from assms(3) ne have l: "last p = 125"
    by (cases p rule: rev_cases) (simp_all add: endswith_def)
  let ?s = "[123] @ p @ [125]"
  have fail: "json_loads ?s = None"
    by (simp add: p json_loads_double_brace)
  have st: "strip ?s = ?s"
    by (rule strip_id) (simp_all add: is_space_def)
  have sw: "startswith ?s (u ''{{'')"
    by (simp add: p startswith_def u_def)
  from ne l obtain q where q: "p = q @ [125]"
    by (cases p rule: rev_cases) simp_all
  have ew: "endswith ?s (u ''}}'')"
    by (simp add: q endswith_def u_def)
  have cand: "drop 1 (butlast ?s) = p"
    by (simp add: butlast_append)
  have "try_json ?s = (let cand = drop 1 (butlast ?s) in if cand = [] then None else json_loads cand)"
    using fail sw ew by (simp add: try_json_def st del: append.simps)
  also have "\<dots> = json_loads p"
    unfolding Let_def cand using ne by simp
  finally show ?thesis
    by (simp only: assms(1))
qed


lemma expand_sources_mapping:
  assumes "SourceCode it = Some src" and "try_json src = Some (JObj kvs)"
    and "dict_get kvs (u ''sources'') = Some v"
  shows "expand_sources it =
     (case v of JObj entries \<Rightarrow> write_sources entries [] | _ \<Rightarrow> Inl AttributeError)"
proof -
  from assms(2) have "src \<noteq> []"
    using try_json_Nil by auto
  then show ?thesis
    using assms by (simp add: expand_sources_def)
qed

lemma expand_sources_fallback:
  assumes "SourceCode it = Some src" and "src \<noteq> []"
    and "\<forall>kvs. try_json src = Some (JObj kvs) \<longrightarrow> dict_get kvs (u ''sources'') = None"
  shows "expand_sources it = Inr [(fallback_name (ContractName it) @ u ''.sol'', src)]"
  using assms by (auto simp: expand_sources_def split: option.splits json.splits)

lemma fallback_name_cases:
  "fallback_name None = u ''Contract''"
  "fallback_name (Some []) = u ''Contract''"
  "strip h = [] \<Longrightarrow> fallback_name (Some h) = u ''Contract''"
  "strip h \<noteq> [] \<Longrightarrow> fallback_name (Some h) = strip h"
proof -
  have c: "strip (u ''Contract'') = u ''Contract''"
    by (simp add: strip_def u_def is_space_def)
  have n: "u ''Contract'' \<noteq> []"
    by (simp add: u_def)
  show "fallback_name None = u ''Contract''" "fallback_name (Some []) = u ''Contract''"
    using n by (simp_all add: fallback_name_def c)
  show "strip h = [] \<Longrightarrow> fallback_name (Some h) = u ''Contract''"
    using n by (simp add: fallback_name_def c)
  show "fallback_name (Some h) = strip h" if s: "strip h \<noteq> []"
  proof -
    from s have "h \<noteq> []"
      by (auto simp: strip_def)
    with s show ?thesis
      by (simp add: fallback_name_def)
  qed
qed

lemma two_sources_expand:
  "expand_sources \<lparr>SourceCode = Some two_sources_payload, ContractName = hint\<rparr>
     = Inr [(u ''A.sol'', u ''X''), (u ''B.sol'', u ''Y'')]"
proof -
  have ne: "two_sources_payload \<noteq> []"
    by (simp add: two_sources_payload_def u_def)
  note t = try_json_parsed [OF two_sources_parse ne]
  have g: "dict_get [(u ''sources'',
        JObj [(u ''A.sol'', JObj [(u ''content'', JStr (u ''X''))]),
              (u ''B.sol'', JObj [(u ''content'', JStr (u ''Y''))])])] (u ''sources'')
      = Some (JObj [(u ''A.sol'', JObj [(u ''content'', JStr (u ''X''))]),
              (u ''B.sol'', JObj [(u ''content'', JStr (u ''Y''))])])"
    by simp
  show ?thesis
    using expand_sources_mapping [OF _ t g, of "\<lparr>SourceCode = Some two_sources_payload, ContractName = hint\<rparr>"]
    by simp
qed

lemma plain_try_json: "try_json plain_payload = None"
proof -
  have "json_loads plain_payload = None"
    by (simp add: plain_payload_def json_eval)
  moreover have "\<not> startswith (strip plain_payload) (u ''{{'')"
    by (simp add: plain_payload_def strip_def startswith_def u_def is_space_def)
  moreover have "plain_payload \<noteq> []"
    by (simp add: plain_payload_def u_def)
  ultimately show ?thesis
    by (simp add: try_json_def)
qed

lemma plain_expand:
  "expand_sources \<lparr>SourceCode = Some plain_payload, ContractName = Some h\<rparr>
     = Inr [(fallback_name (Some h) @ u ''.sol'', plain_payload)]"
proof -
  have "plain_payload \<noteq> []"
    by (simp add: plain_payload_def u_def)
  then show ?thesis
    by (simp add: expand_sources_fallback plain_try_json)
qed


lemma empty_object_expand:
  "json_loads (u ''{}'') = Some (JObj [])"
  "expand_sources \<lparr>SourceCode = Some (u ''{}''), ContractName = None\<rparr>
     = Inr [(u ''Contract.sol'', u ''{}'')]"
  "expand_sources \<lparr>SourceCode = Some ([123] @ u ''{}'' @ [125]), ContractName = None\<rparr>
     = Inr [(u ''Contract.sol'', u ''{{}}'')]"
proof -
  show p: "json_loads (u ''{}'') = Some (JObj [])"
    by (simp add: json_eval)
  have ne: "u ''{}'' \<noteq> []" "[123] @ u ''{}'' @ [125] \<noteq> []"
    by (simp_all add: u_def)
  have b: "startswith (u ''{}'') [123]" "endswith (u ''{}'') [125]"
    by (simp_all add: startswith_def endswith_def u_def)
  have name: "fallback_name None @ u ''.sol'' = u ''Contract.sol''"
    by (simp add: fallback_name_cases u_def)
  have w: "[123] @ u ''{}'' @ [125] = u ''{{}}''"
    by (simp add: u_def)
  show "expand_sources \<lparr>SourceCode = Some (u ''{}''), ContractName = None\<rparr>
     = Inr [(u ''Contract.sol'', u ''{}'')]"
    using expand_sources_fallback [of "\<lparr>SourceCode = Some (u ''{}''), ContractName = None\<rparr>" "u ''{}''"]
      try_json_parsed [OF p ne(1)] ne(1) name by simp
  show "expand_sources \<lparr>SourceCode = Some ([123] @ u ''{}'' @ [125]), ContractName = None\<rparr>
     = Inr [(u ''Contract.sol'', u ''{{}}'')]"
    using expand_sources_fallback [of "\<lparr>SourceCode = Some ([123] @ u ''{}'' @ [125]), ContractName = None\<rparr>"
        "[123] @ u ''{}'' @ [125]"]
      try_json_wrapped [OF p b] ne(2) name w by simp
qed

lemma wrapped_expand:
  assumes "json_loads p = Some (JObj kvs)" and "dict_get kvs (u ''sources'') = Some v"
    and "startswith p [123]" and "endswith p [125]"
  shows "expand_sources \<lparr>SourceCode = Some ([123] @ p @ [125]), ContractName = hint\<rparr>
       = expand_sources \<lparr>SourceCode = Some p, ContractName = hint\<rparr>"
proof -
  from assms(1) have ne: "p \<noteq> []"
    using json_loads_Nil by auto
  have a: "expand_sources \<lparr>SourceCode = Some ([123] @ p @ [125]), ContractName = hint\<rparr>
      = (case v of JObj entries \<Rightarrow> write_sources entries [] | _ \<Rightarrow> Inl AttributeError)"
    by (rule expand_sources_mapping [OF _ try_json_wrapped [OF assms(1,3,4)] assms(2)]) simp
  have b: "expand_sources \<lparr>SourceCode = Some p, ContractName = hint\<rparr>
      = (case v of JObj entries \<Rightarrow> write_sources entries [] | _ \<Rightarrow> Inl AttributeError)"
    by (rule expand_sources_mapping [OF _ try_json_parsed [OF assms(1) ne] assms(2)]) simp
  show ?thesis
    by (simp only: a b)
qed

text \<open>
  Claim C6, amended.  The payload
  \<^verbatim>\<open>{"sources": {"A.sol": {"content": "X"}, "B.sol": {"content": "Y"}}}\<close> expands to the
  two units \<^verbatim>\<open>A.sol\<close> with text \<^verbatim>\<open>X\<close> and \<^verbatim>\<open>B.sol\<close> with text \<^verbatim>\<open>Y\<close>, and the plain
  text \<^verbatim>\<open>contract C {}\<close> with the hint \<^verbatim>\<open>C\<close> to the one unit \<^verbatim>\<open>C.sol\<close> with that text.
  For every payload \<open>p\<close> that begins with \<^verbatim>\<open>{\<close>, ends with \<^verbatim>\<open>}\<close> and parses to an
  object with a \<^verbatim>\<open>sources\<close> key, expanding \<open>p\<close> in a second pair of braces gives what
  expanding \<open>p\<close> gives.
\<close>

theorem expansion_round_trip:
  "expand_sources \<lparr>SourceCode = Some two_sources_payload, ContractName = hint\<rparr>
     = Inr [(u ''A.sol'', u ''X''), (u ''B.sol'', u ''Y'')]
   \<and> expand_sources \<lparr>SourceCode = Some plain_payload, ContractName = Some (u ''C'')\<rparr>
     = Inr [(u ''C.sol'', u ''contract C {}'')]
   \<and> (\<forall>p kvs v. json_loads p = Some (JObj kvs) \<and> dict_get kvs (u ''sources'') = Some v
          \<and> startswith p [123] \<and> endswith p [125] \<longrightarrow>
        expand_sources \<lparr>SourceCode = Some ([123] @ p @ [125]), ContractName = hint\<rparr>
          = expand_sources \<lparr>SourceCode = Some p, ContractName = hint\<rparr>)"
proof -
  have "strip (u ''C'') = u ''C''"
    by (simp add: strip_def u_def is_space_def)
  then have "fallback_name (Some (u ''C'')) @ u ''.sol'' = u ''C.sol''"
    by (simp add: fallback_name_cases(4) u_def)
  then have plain: "expand_sources \<lparr>SourceCode = Some plain_payload, ContractName = Some (u ''C'')\<rparr>
     = Inr [(u ''C.sol'', u ''contract C {}'')]"
    by (simp add: plain_expand) (simp add: plain_payload_def)
  show ?thesis
    using two_sources_expand [of hint] plain wrapped_expand [of _ _ _ hint] by blast
qed

theorem expansion_round_trip_witness:
  "json_loads two_sources_payload =
     Some (JObj [(u ''sources'',
        JObj [(u ''A.sol'', JObj [(u ''content'', JStr (u ''X''))]),
              (u ''B.sol'', JObj [(u ''content'', JStr (u ''Y''))])])])
   \<and> startswith two_sources_payload [123] \<and> endswith two_sources_payload [125]
   \<and> expand_sources \<lparr>SourceCode = Some ([123] @ two_sources_payload @ [125]),
                       ContractName = None\<rparr>
       = Inr [(u ''A.sol'', u ''X''), (u ''B.sol'', u ''Y'')]"
proof -
  have b: "startswith two_sources_payload [123]" "endswith two_sources_payload [125]"
    by (simp_all add: two_sources_payload_def startswith_def endswith_def u_def)
  have g: "dict_get [(u ''sources'',
        JObj [(u ''A.sol'', JObj [(u ''content'', JStr (u ''X''))]),
              (u ''B.sol'', JObj [(u ''content'', JStr (u ''Y''))])])] (u ''sources'')
      = Some (JObj [(u ''A.sol'', JObj [(u ''content'', JStr (u ''X''))]),
              (u ''B.sol'', JObj [(u ''content'', JStr (u ''Y''))])])"
    by simp
  note t = expansion_round_trip [of None]
  from t [THEN conjunct2, THEN conjunct2, rule_format,
      OF conjI [OF two_sources_parse conjI [OF g conjI [OF b]]]]
    t [THEN conjunct1]
  have "expand_sources \<lparr>SourceCode = Some ([123] @ two_sources_payload @ [125]),
                       ContractName = None\<rparr>
       = Inr [(u ''A.sol'', u ''X''), (u ''B.sol'', u ''Y'')]"
    by (simp only:)
  with two_sources_parse b show ?thesis
    by (simp only: simp_thms)
qed

text \<open>
  Claim C6 as it was stated, for every JSON payload, fails at the payload \<^verbatim>\<open>{}\<close>: it
  parses to an object without a \<^verbatim>\<open>sources\<close> key, so it expands to one unit holding
  \<^verbatim>\<open>{}\<close>, while \<^verbatim>\<open>{{}}\<close> expands to one unit holding \<^verbatim>\<open>{{}}\<close>.
\<close>

theorem wrapped_without_sources_counterexample:
  "json_loads (u ''{}'') = Some (JObj [])
   \<and> expand_sources \<lparr>SourceCode = Some (u ''{}''), ContractName = None\<rparr>
       = Inr [(u ''Contract.sol'', u ''{}'')]
   \<and> expand_sources \<lparr>SourceCode = Some ([123] @ u ''{}'' @ [125]), ContractName = None\<rparr>
       = Inr [(u ''Contract.sol'', u ''{{}}'')]
   \<and> expand_sources \<lparr>SourceCode = Some ([123] @ u ''{}'' @ [125]), ContractName = None\<rparr>
       \<noteq> expand_sources \<lparr>SourceCode = Some (u ''{}''), ContractName = None\<rparr>"
proof -
  have "u ''{{}}'' \<noteq> u ''{}''"
    by (simp add: u_def)
  then show ?thesis
    by (simp only: empty_object_expand) simp
qed












end
